theory Spec2Isabelle
  imports Main "HOL-Library.Word"
begin

unbundle bit_operations_syntax

section \<open>Python values used by \<open>utils.py\<close>\<close>

text \<open>
  A Python \<open>bytes\<close> object is a list of 8-bit words. A Python \<open>str\<close> is a list of
  Unicode code points (natural numbers below \<open>0x110000\<close>); \<open>py\<close> turns an ASCII
  literal into such a string.
\<close>

type_synonym byte = "8 word"
type_synonym pybytes = "byte list"
type_synonym pystr = "nat list"

definition py :: "string \<Rightarrow> pystr" where
  "py s = map of_char s"

definition pyb :: "string \<Rightarrow> pybytes" where
  "pyb s = map of_char s"

text \<open>The exceptions that the modelled functions can raise.\<close>

datatype error =
    AssertionError
  | TypeError
  | UnicodeEncodeError
  | UnicodeDecodeError
  | OverflowError

text \<open>
  The argument of \<open>hmacSign\<close> is typed \<open>Any\<close>. The model has \<open>bytes\<close> objects
  (\<open>isinstance(data, bytes)\<close> holds exactly for \<open>PyBytes\<close>) and three kinds of other
  objects with a builtin \<open>str()\<close>: strings, integers and \<open>None\<close>.
\<close>

datatype pyval = PyStr pystr | PyInt int | PyNone

datatype pyobj = PyBytes pybytes | PyOther pyval

subsection \<open>\<open>str()\<close> and decimal numerals\<close>

fun digits_acc :: "nat \<Rightarrow> nat \<Rightarrow> pystr \<Rightarrow> pystr" where
  "digits_acc 0 n acc = acc"
| "digits_acc (Suc fuel) n acc =
     (if n < 10 then (48 + n) # acc
      else digits_acc fuel (n div 10) ((48 + n mod 10) # acc))"

definition str_nat :: "nat \<Rightarrow> pystr" where
  "str_nat n = digits_acc (Suc n) n []"

definition str_int :: "int \<Rightarrow> pystr" where
  "str_int i = (if i < 0 then 45 # str_nat (nat (- i)) else str_nat (nat i))"

fun str :: "pyval \<Rightarrow> pystr" where
  "str (PyStr s) = s"
| "str (PyInt i) = str_int i"
| "str PyNone = py ''None''"

subsection \<open>\<open>str.encode("UTF-8")\<close> and \<open>bytes.decode("ASCII")\<close>\<close>

definition utf8_char :: "nat \<Rightarrow> error + pybytes" where
  "utf8_char c =
     (if c < 0x80 then Inr [of_nat c]
      else if c < 0x800 then Inr [of_nat (0xC0 + c div 64), of_nat (0x80 + c mod 64)]
      else if 0xD800 \<le> c \<and> c < 0xE000 then Inl UnicodeEncodeError
      else if c < 0x10000 then
        Inr [of_nat (0xE0 + c div 4096), of_nat (0x80 + c div 64 mod 64),
             of_nat (0x80 + c mod 64)]
      else if c < 0x110000 then
        Inr [of_nat (0xF0 + c div 262144), of_nat (0x80 + c div 4096 mod 64),
             of_nat (0x80 + c div 64 mod 64), of_nat (0x80 + c mod 64)]
      else Inl UnicodeEncodeError)"

fun encode_utf8 :: "pystr \<Rightarrow> error + pybytes" where
  "encode_utf8 [] = Inr []"
| "encode_utf8 (c # cs) =
     (case utf8_char c of
        Inl e \<Rightarrow> Inl e
      | Inr bs \<Rightarrow> (case encode_utf8 cs of Inl e \<Rightarrow> Inl e | Inr r \<Rightarrow> Inr (bs @ r)))"

definition decode_ascii :: "pybytes \<Rightarrow> error + pystr" where
  "decode_ascii bs =
     (if list_all (\<lambda>b. unat b < 128) bs then Inr (map unat bs) else Inl UnicodeDecodeError)"

section \<open>The library primitives: SHA3-384, HMAC, hexdigest, compare_digest\<close>

subsection \<open>Keccak-f[1600]\<close>

type_synonym lane = "64 word"

definition keccak_rc :: "lane list" where
  "keccak_rc =
     [0x0000000000000001, 0x0000000000008082, 0x800000000000808A, 0x8000000080008000,
      0x000000000000808B, 0x0000000080000001, 0x8000000080008081, 0x8000000000008009,
      0x000000000000008A, 0x0000000000000088, 0x0000000080008009, 0x000000008000000A,
      0x000000008000808B, 0x800000000000008B, 0x8000000000008089, 0x8000000000008003,
      0x8000000000008002, 0x8000000000000080, 0x000000000000800A, 0x800000008000000A,
      0x8000000080008081, 0x8000000000008080, 0x0000000080000001, 0x8000000080008008]"

definition keccak_rot :: "nat list" where
  "keccak_rot =
     [0, 1, 62, 28, 27,
      36, 44, 6, 55, 20,
      3, 10, 43, 25, 39,
      41, 45, 15, 21, 8,
      18, 2, 61, 56, 14]"

text \<open>The state is the list of the 25 lanes, lane \<open>(x, y)\<close> at index \<open>x + 5 * y\<close>.\<close>

definition theta :: "lane list \<Rightarrow> lane list" where
  "theta a =
     (let c = map (\<lambda>x. a ! x XOR a ! (x + 5) XOR a ! (x + 10) XOR a ! (x + 15) XOR a ! (x + 20))
                [0 ..< 5];
          d = map (\<lambda>x. c ! ((x + 4) mod 5) XOR word_rotl 1 (c ! ((x + 1) mod 5))) [0 ..< 5]
      in map (\<lambda>i. a ! i XOR d ! (i mod 5)) [0 ..< 25])"

definition rho_pi :: "lane list \<Rightarrow> lane list" where
  "rho_pi a =
     map (\<lambda>i. let X = i mod 5; Y = i div 5; j = (X + 3 * Y) mod 5 + 5 * X
               in word_rotl (keccak_rot ! j) (a ! j)) [0 ..< 25]"

definition chi :: "lane list \<Rightarrow> lane list" where
  "chi b =
     map (\<lambda>i. let x = i mod 5; y = i div 5
               in b ! i XOR (NOT (b ! ((x + 1) mod 5 + 5 * y)) AND b ! ((x + 2) mod 5 + 5 * y)))
         [0 ..< 25]"

definition iota :: "lane \<Rightarrow> lane list \<Rightarrow> lane list" where
  "iota rc a = (case a of [] \<Rightarrow> [] | l # ls \<Rightarrow> (l XOR rc) # ls)"

definition keccak_round :: "lane list \<Rightarrow> lane \<Rightarrow> lane list" where
  "keccak_round a rc = iota rc (chi (rho_pi (theta a)))"

definition keccak_f :: "lane list \<Rightarrow> lane list" where
  "keccak_f a = foldl keccak_round a keccak_rc"

subsection \<open>The sponge with rate 104 bytes and the SHA-3 padding\<close>

definition lane_of_bytes :: "pybytes \<Rightarrow> lane" where
  "lane_of_bytes bs = foldr (\<lambda>b w. push_bit 8 w OR ucast b) bs 0"

definition bytes_of_lane :: "lane \<Rightarrow> pybytes" where
  "bytes_of_lane w = map (\<lambda>i. ucast (drop_bit (8 * i) w)) [0 ..< 8]"

fun chunks :: "nat \<Rightarrow> nat \<Rightarrow> 'a list \<Rightarrow> 'a list list" where
  "chunks 0 n xs = []"
| "chunks (Suc fuel) n xs = (if xs = [] then [] else take n xs # chunks fuel n (drop n xs))"

definition sha3_rate :: nat where
  "sha3_rate = 104"

definition sha3_pad :: "pybytes \<Rightarrow> pybytes" where
  "sha3_pad m =
     (let q = sha3_rate - length m mod sha3_rate
      in if q = 1 then m @ [0x86] else m @ [0x06] @ replicate (q - 2) 0 @ [0x80])"

definition absorb :: "lane list \<Rightarrow> pybytes \<Rightarrow> lane list" where
  "absorb st block =
     keccak_f (map (\<lambda>i. if i < 13 then st ! i XOR lane_of_bytes (take 8 (drop (8 * i) block))
                         else st ! i) [0 ..< 25])"

definition sha3_384 :: "pybytes \<Rightarrow> pybytes" where
  "sha3_384 m =
     take 48 (concat (map bytes_of_lane
       (foldl absorb (replicate 25 0) (chunks (length (sha3_pad m)) sha3_rate (sha3_pad m)))))"

subsection \<open>\<open>hmac.new(key, msg, hashlib.sha3_384)\<close>\<close>

definition hmac_key_block :: "pybytes \<Rightarrow> pybytes" where
  "hmac_key_block key =
     (let k = (if length key > sha3_rate then sha3_384 key else key)
      in k @ replicate (sha3_rate - length k) 0)"

definition hmac_sha3_384 :: "pybytes \<Rightarrow> pybytes \<Rightarrow> pybytes" where
  "hmac_sha3_384 key msg =
     (let k = hmac_key_block key
      in sha3_384 (map (\<lambda>b. b XOR 0x5C) k @ sha3_384 (map (\<lambda>b. b XOR 0x36) k @ msg)))"

definition hex_digit :: "nat \<Rightarrow> nat" where
  "hex_digit d = (if d < 10 then 48 + d else 87 + d)"

definition hexdigest :: "pybytes \<Rightarrow> pystr" where
  "hexdigest bs = concat (map (\<lambda>b. [hex_digit (unat b div 16), hex_digit (unat b mod 16)]) bs)"

text \<open>
  \<open>hmac.compare_digest\<close> on two \<open>str\<close> arguments: a \<open>TypeError\<close> when one of them has
  a non-ASCII character, the equality of the two strings otherwise.
\<close>

definition is_ascii :: "pystr \<Rightarrow> bool" where
  "is_ascii s = list_all (\<lambda>c. c < 128) s"

definition compare_digest :: "pystr \<Rightarrow> pystr \<Rightarrow> error + bool" where
  "compare_digest a b = (if is_ascii a \<and> is_ascii b then Inr (a = b) else Inl TypeError)"

section \<open>\<open>hmacSign\<close> and \<open>hmacVerify\<close>\<close>

text \<open>The entry \<open>conf["viur.file.hmacKey"]\<close>: \<open>None\<close> or a \<open>bytes\<close> key.\<close>

record conf =
  viur_file_hmacKey :: "pybytes option"

definition hmacSign :: "conf \<Rightarrow> pyobj \<Rightarrow> error + pystr" where
  "hmacSign cnf data =
     (case viur_file_hmacKey cnf of
        None \<Rightarrow> Inl AssertionError
      | Some key \<Rightarrow>
          (case (case data of PyBytes b \<Rightarrow> Inr b | PyOther v \<Rightarrow> encode_utf8 (str v)) of
             Inl e \<Rightarrow> Inl e
           | Inr msg \<Rightarrow> Inr (hexdigest (hmac_sha3_384 key msg))))"

definition hmacVerify :: "conf \<Rightarrow> pyobj \<Rightarrow> pystr \<Rightarrow> error + bool" where
  "hmacVerify cnf data signature =
     (case hmacSign cnf data of
        Inl e \<Rightarrow> Inl e
      | Inr s \<Rightarrow> compare_digest s signature)"


section \<open>\<open>base64.urlsafe_b64encode\<close>\<close>

definition b64_alphabet :: pystr where
  "b64_alphabet = py ''ABCDEFGHIJKLMNOPQRSTUVWXYZabcdefghijklmnopqrstuvwxyz0123456789-_''"

definition b64_char :: "nat \<Rightarrow> byte" where
  "b64_char i = of_nat (b64_alphabet ! i)"

text \<open>
  Three bytes make a group of 24 bits, read as four 6-bit numbers; a last group of one or
  two bytes is filled with zero bits and padded with \<open>=\<close>.
\<close>

definition sextet :: "nat \<Rightarrow> nat \<Rightarrow> nat" where
  "sextet n k = n div 64 ^ k mod 64"

fun urlsafe_b64encode :: "pybytes \<Rightarrow> pybytes" where
  "urlsafe_b64encode [] = []"
| "urlsafe_b64encode [a] =
     (let n = unat a * 65536
      in [b64_char (sextet n 3), b64_char (sextet n 2), 61, 61])"
| "urlsafe_b64encode [a, b] =
     (let n = unat a * 65536 + unat b * 256
      in [b64_char (sextet n 3), b64_char (sextet n 2), b64_char (sextet n 1), 61])"
| "urlsafe_b64encode (a # b # c # rest) =
     (let n = unat a * 65536 + unat b * 256 + unat c
      in [b64_char (sextet n 3), b64_char (sextet n 2), b64_char (sextet n 1),
          b64_char (sextet n 0)] @ urlsafe_b64encode rest)"

section \<open>\<open>datetime\<close> and \<open>timedelta\<close>\<close>

text \<open>
  A naive \<open>datetime\<close> is a point of the proleptic Gregorian calendar: the number of
  microseconds since 0001-01-01T00:00:00. The representable range ends with year 9999.
  A \<open>timedelta\<close> is a number of microseconds; it is falsy exactly when it is zero.
\<close>

type_synonym datetime = int
type_synonym timedelta = int

definition us_per_minute :: int where
  "us_per_minute = 60000000"

definition us_per_day :: int where
  "us_per_day = 86400000000"

definition max_ordinal :: int where
  "max_ordinal = 3652059"

definition timedelta_of :: "int \<Rightarrow> int \<Rightarrow> int \<Rightarrow> int \<Rightarrow> timedelta" where
  "timedelta_of days hours minutes seconds =
     ((days * 24 + hours) * 60 + minutes) * us_per_minute + seconds * 1000000"

definition timedelta_truthy :: "timedelta \<Rightarrow> bool" where
  "timedelta_truthy d = (d \<noteq> 0)"

text \<open>\<open>datetime.__add__\<close>: the sum, or \<open>OverflowError\<close> outside of the years 1 to 9999.\<close>

definition datetime_add :: "datetime \<Rightarrow> timedelta \<Rightarrow> error + datetime" where
  "datetime_add t d =
     (let r = t + d
      in if 0 \<le> r \<and> r < max_ordinal * us_per_day then Inr r else Inl OverflowError)"

subsection \<open>The calendar\<close>

definition is_leap :: "int \<Rightarrow> bool" where
  "is_leap y = (y mod 4 = 0 \<and> (y mod 100 \<noteq> 0 \<or> y mod 400 = 0))"

definition days_before_year :: "int \<Rightarrow> int" where
  "days_before_year year =
     (let y = year - 1 in y * 365 + y div 4 - y div 100 + y div 400)"

definition days_in_month_tab :: "int list" where
  "days_in_month_tab = [0, 31, 28, 31, 30, 31, 30, 31, 31, 30, 31, 30, 31]"

definition days_before_month_tab :: "int list" where
  "days_before_month_tab = [0, 0, 31, 59, 90, 120, 151, 181, 212, 243, 273, 304, 334]"

definition days_in_month :: "int \<Rightarrow> int \<Rightarrow> int" where
  "days_in_month year month =
     (if month = 2 \<and> is_leap year then 29 else days_in_month_tab ! nat month)"

definition days_before_month :: "int \<Rightarrow> int \<Rightarrow> int" where
  "days_before_month year month =
     days_before_month_tab ! nat month + (if month > 2 \<and> is_leap year then 1 else 0)"

definition ymd2ord :: "int \<Rightarrow> int \<Rightarrow> int \<Rightarrow> int" where
  "ymd2ord year month day = days_before_year year + days_before_month year month + day"

text \<open>The day of the year \<open>n\<close> (from 0) to month and day, as \<open>_ord2ymd\<close> finds them.\<close>

definition month_day :: "bool \<Rightarrow> int \<Rightarrow> int \<times> int" where
  "month_day leapyear n =
     (let month = (n + 50) div 32;
          preceding = days_before_month_tab ! nat month + (if month > 2 \<and> leapyear then 1 else 0)
      in if preceding > n
         then (let month' = month - 1;
                   preceding' = preceding - (days_in_month_tab ! nat month'
                                  + (if month' = 2 \<and> leapyear then 1 else 0))
               in (month', n - preceding' + 1))
         else (month, n - preceding + 1))"

definition ord2ymd :: "int \<Rightarrow> int \<times> int \<times> int" where
  "ord2ymd ordinal =
     (let n = ordinal - 1;
          n400 = n div 146097; n = n mod 146097;
          n100 = n div 36524; n = n mod 36524;
          n4 = n div 1461; n = n mod 1461;
          n1 = n div 365; n = n mod 365;
          year = n400 * 400 + 1 + n100 * 100 + n4 * 4 + n1
      in if n1 = 4 \<or> n100 = 4 then (year - 1, 12, 31)
         else (let leapyear = (n1 = 3 \<and> (n4 \<noteq> 24 \<or> n100 = 3));
                   (month, day) = month_day leapyear n
               in (year, month, day)))"

subsection \<open>\<open>strftime("%Y%m%d%H%M")\<close>\<close>

text \<open>
  The C library prints \<open>%Y\<close> as the decimal year without padding, so the stamp has the
  twelve characters \<open>YYYYMMDDHHMM\<close> for the years from 1000 on; the other fields have
  two digits each.
\<close>

definition pad2 :: "int \<Rightarrow> pystr" where
  "pad2 n = [48 + nat n div 10, 48 + nat n mod 10]"

definition strftime_YmdHM :: "datetime \<Rightarrow> pystr" where
  "strftime_YmdHM t =
     (let (year, month, day) = ord2ymd (t div us_per_day + 1);
          minute_of_day = t mod us_per_day div us_per_minute
      in str_nat (nat year) @ pad2 month @ pad2 day
         @ pad2 (minute_of_day div 60) @ pad2 (minute_of_day mod 60))"

section \<open>\<open>downloadUrlFor\<close>\<close>

text \<open>
  The configuration and the reading of the clock (\<open>datetime.now()\<close>) are arguments.
  \<open>expires\<close> is \<open>None\<close> or a \<open>timedelta\<close>. The steps are those of the source, in its
  order: the file path, the expiry stamp (the addition can overflow), the encoding of the
  payload, its signature, and the formatting of the result.
\<close>

definition filePath_of :: "pystr \<Rightarrow> pystr \<Rightarrow> bool \<Rightarrow> pystr" where
  "filePath_of folder fileName derived =
     (if derived then folder @ py ''/derived/'' @ fileName
      else folder @ py ''/source/'' @ fileName)"

definition expiry_stamp :: "datetime \<Rightarrow> timedelta option \<Rightarrow> error + pystr" where
  "expiry_stamp now expires =
     (case expires of
        None \<Rightarrow> Inr (str (PyInt 0))
      | Some d \<Rightarrow>
          if timedelta_truthy d
          then (case datetime_add now d of Inl e \<Rightarrow> Inl e | Inr t \<Rightarrow> Inr (strftime_YmdHM t))
          else Inr (str (PyInt 0)))"

definition downloadUrlFor ::
  "conf \<Rightarrow> datetime \<Rightarrow> pystr \<Rightarrow> pystr \<Rightarrow> bool \<Rightarrow> timedelta option \<Rightarrow> error + pystr" where
  "downloadUrlFor cnf now folder fileName derived expires =
     (let filePath = filePath_of folder fileName derived
      in case expiry_stamp now expires of
           Inl e \<Rightarrow> Inl e
         | Inr stamp \<Rightarrow>
             (case encode_utf8 (filePath @ [0] @ stamp) of
                Inl e \<Rightarrow> Inl e
              | Inr raw \<Rightarrow>
                  (let sigStr = urlsafe_b64encode raw
                   in case hmacSign cnf (PyBytes sigStr) of
                        Inl e \<Rightarrow> Inl e
                      | Inr resstr \<Rightarrow>
                          (case decode_ascii sigStr of
                             Inl e \<Rightarrow> Inl e
                           | Inr s \<Rightarrow> Inr (py ''/file/download/'' @ s @ py ''?sig='' @ resstr)))))"



text \<open>The reading of the clock at a calendar date and a time of day.\<close>

definition datetime_of :: "int \<Rightarrow> int \<Rightarrow> int \<Rightarrow> int \<Rightarrow> int \<Rightarrow> int \<Rightarrow> datetime" where
  "datetime_of year month day hour minute second =
     (ymd2ord year month day - 1) * us_per_day + (hour * 60 + minute) * us_per_minute
       + second * 1000000"


section \<open>Verification of a download URL\<close>

text \<open>
  \<open>utils.py\<close> issues the URLs; the function that checks them is in another module.
  This section holds its model and the decoders it needs.
\<close>

definition b64_index :: "nat \<Rightarrow> nat option" where
  "b64_index c =
     (if 65 \<le> c \<and> c \<le> 90 then Some (c - 65)
      else if 97 \<le> c \<and> c \<le> 122 then Some (c - 71)
      else if 48 \<le> c \<and> c \<le> 57 then Some (c + 4)
      else if c = 45 then Some 62
      else if c = 95 then Some 63
      else None)"

text \<open>
  The inverse of \<open>urlsafe_b64encode\<close> on strings: groups of four characters of the
  alphabet, the last one possibly padded with one or two \<open>=\<close>; \<open>None\<close> for anything
  else.
\<close>

fun urlsafe_b64decode :: "pystr \<Rightarrow> pybytes option" where
  "urlsafe_b64decode [] = Some []"
| "urlsafe_b64decode (c0 # c1 # c2 # c3 # rest) =
     (if rest = [] \<and> c3 = 61 \<and> c2 = 61 then
        (case (b64_index c0, b64_index c1) of
           (Some i0, Some i1) \<Rightarrow> Some [of_nat ((i0 * 64 + i1) div 16)]
         | _ \<Rightarrow> None)
      else if rest = [] \<and> c3 = 61 then
        (case (b64_index c0, b64_index c1, b64_index c2) of
           (Some i0, Some i1, Some i2) \<Rightarrow>
             (let n = (i0 * 64 + i1) * 64 + i2
              in Some [of_nat (n div 1024), of_nat (n div 4 mod 256)])
         | _ \<Rightarrow> None)
      else
        (case (b64_index c0, b64_index c1, b64_index c2, b64_index c3) of
           (Some i0, Some i1, Some i2, Some i3) \<Rightarrow>
             (let n = ((i0 * 64 + i1) * 64 + i2) * 64 + i3
              in case urlsafe_b64decode rest of
                   None \<Rightarrow> None
                 | Some bs \<Rightarrow>
                     Some (of_nat (n div 65536) # of_nat (n div 256 mod 256)
                             # of_nat (n mod 256) # bs))
         | _ \<Rightarrow> None))"
| "urlsafe_b64decode _ = None"

text \<open>
  A strict UTF-8 decoder: shortest forms only, no surrogates, nothing above
  \<open>0x10FFFF\<close>.
\<close>

definition is_cont :: "byte \<Rightarrow> bool" where
  "is_cont b = (0x80 \<le> unat b \<and> unat b < 0xC0)"

fun decode_utf8 :: "pybytes \<Rightarrow> pystr option" where
  "decode_utf8 [] = Some []"
| "decode_utf8 (b0 # bs) =
     (let x0 = unat b0 in
      if x0 < 0x80 then map_option ((#) x0) (decode_utf8 bs)
      else if 0xC2 \<le> x0 \<and> x0 < 0xE0 then
        (case bs of
           b1 # r \<Rightarrow>
             if is_cont b1
             then map_option ((#) ((x0 - 0xC0) * 64 + (unat b1 - 0x80))) (decode_utf8 r)
             else None
         | _ \<Rightarrow> None)
      else if 0xE0 \<le> x0 \<and> x0 < 0xF0 then
        (case bs of
           b1 # b2 # r \<Rightarrow>
             (let c = ((x0 - 0xE0) * 64 + (unat b1 - 0x80)) * 64 + (unat b2 - 0x80)
              in if is_cont b1 \<and> is_cont b2 \<and> 0x800 \<le> c \<and> (c < 0xD800 \<or> 0xE000 \<le> c)
                 then map_option ((#) c) (decode_utf8 r)
                 else None)
         | _ \<Rightarrow> None)
      else if 0xF0 \<le> x0 \<and> x0 < 0xF5 then
        (case bs of
           b1 # b2 # b3 # r \<Rightarrow>
             (let c = (((x0 - 0xF0) * 64 + (unat b1 - 0x80)) * 64 + (unat b2 - 0x80)) * 64
                        + (unat b3 - 0x80)
              in if is_cont b1 \<and> is_cont b2 \<and> is_cont b3 \<and> 0x10000 \<le> c \<and> c < 0x110000
                 then map_option ((#) c) (decode_utf8 r)
                 else None)
         | _ \<Rightarrow> None)
      else None)"

text \<open>\<open>s.split(sep)\<close> for a separator of one character.\<close>

fun split_on :: "nat \<Rightarrow> pystr \<Rightarrow> pystr list" where
  "split_on sep [] = [[]]"
| "split_on sep (c # cs) =
     (if c = sep then [] # split_on sep cs
      else (case split_on sep cs of [] \<Rightarrow> [[c]] | p # ps \<Rightarrow> (c # p) # ps))"

text \<open>
  The inverse of \<open>strftime("%Y%m%d%H%M")\<close> on stamps of twelve digits that name a
  date of the calendar and a time of day; \<open>None\<close> for anything else.
\<close>

definition is_digit :: "nat \<Rightarrow> bool" where
  "is_digit c = (48 \<le> c \<and> c \<le> 57)"

definition int_of_digits :: "pystr \<Rightarrow> int" where
  "int_of_digits ds = foldl (\<lambda>acc c. acc * 10 + (int c - 48)) 0 ds"

definition strptime_YmdHM :: "pystr \<Rightarrow> datetime option" where
  "strptime_YmdHM s =
     (if length s = 12 \<and> list_all is_digit s then
        (let year = int_of_digits (take 4 s);
             month = int_of_digits (take 2 (drop 4 s));
             day = int_of_digits (take 2 (drop 6 s));
             hour = int_of_digits (take 2 (drop 8 s));
             minute = int_of_digits (take 2 (drop 10 s))
         in if 1 \<le> year \<and> 1 \<le> month \<and> month \<le> 12 \<and> 1 \<le> day
               \<and> day \<le> days_in_month year month \<and> hour < 24 \<and> minute < 60
            then Some (datetime_of year month day hour minute 0)
            else None)
      else None)"

record verify_result =
  valid :: bool
  filePath :: "pystr option"

definition invalid_result :: verify_result where
  "invalid_result = \<lparr>valid = False, filePath = None\<rparr>"

definition valid_result :: "pystr \<Rightarrow> verify_result" where
  "valid_result path = \<lparr>valid = True, filePath = Some path\<rparr>"

text \<open>
  Modelled from the spec: \<open>verifyDownloadURL\<close>, which is not in \<open>utils.py\<close>. The
  signature is checked with \<open>hmacVerify\<close> on the encoded path; a missing key is the one
  failure that is raised, every other failure of the check is the result "invalid". The
  encoded path is then decoded and split at the NUL separator into exactly two parts, the
  file path and the expiry stamp. The stamp \<open>0\<close> never expires. Any other stamp is parsed
  as a time in minutes, and the token is valid when the minute of the current time is not
  after it. A payload that cannot be decoded, split or parsed is invalid.
\<close>

definition verifyDownloadURL ::
  "conf \<Rightarrow> datetime \<Rightarrow> pystr \<Rightarrow> pystr \<Rightarrow> error + verify_result" where
  "verifyDownloadURL cnf now encodedPath signature =
     (case hmacVerify cnf (PyOther (PyStr encodedPath)) signature of
        Inl e \<Rightarrow> (if e = AssertionError then Inl e else Inr invalid_result)
      | Inr ok \<Rightarrow>
          if \<not> ok then Inr invalid_result
          else
            (case urlsafe_b64decode encodedPath of
               None \<Rightarrow> Inr invalid_result
             | Some raw \<Rightarrow>
                 (case decode_utf8 raw of
                    None \<Rightarrow> Inr invalid_result
                  | Some payload \<Rightarrow>
                      (case split_on 0 payload of
                         [path, expiryStamp] \<Rightarrow>
                           if expiryStamp = py ''0'' then Inr (valid_result path)
                           else
                             (case strptime_YmdHM expiryStamp of
                                None \<Rightarrow> Inr invalid_result
                              | Some t \<Rightarrow>
                                  if now div us_per_minute \<le> t div us_per_minute
                                  then Inr (valid_result path)
                                  else Inr invalid_result)
                       | _ \<Rightarrow> Inr invalid_result))))"

text \<open>
  Modelled from the spec: the \<open>parse\<close> step that takes the encoded path and the
  signature out of an issued URL \<open>/file/download/{encodedPath}?sig={signature}\<close>. The
  path ends at the first \<open>?\<close>.
\<close>

definition parse_url :: "pystr \<Rightarrow> (pystr \<times> pystr) option" where
  "parse_url url =
     (let prefix = py ''/file/download/''; rest = drop (length prefix) url;
          path = takeWhile (\<lambda>c. c \<noteq> 63) rest; query = dropWhile (\<lambda>c. c \<noteq> 63) rest
      in if take (length prefix) url = prefix \<and> take 5 query = py ''?sig=''
         then Some (path, drop 5 query) else None)"


section \<open>Notions used in the statements\<close>

definition is_lower_hex :: "nat \<Rightarrow> bool" where
  "is_lower_hex c = ((48 \<le> c \<and> c \<le> 57) \<or> (97 \<le> c \<and> c \<le> 102))"

definition hex_val :: "nat \<Rightarrow> nat" where
  "hex_val c = (if c \<le> 57 then c - 48 else c - 87)"

fun unhex :: "pystr \<Rightarrow> pybytes" where
  "unhex (h # l # r) = of_nat (16 * hex_val h + hex_val l) # unhex r"
| "unhex _ = []"

text \<open>The strings that \<open>encode("UTF-8")\<close> accepts: code points that are no surrogates.\<close>

definition utf8_encodable :: "pystr \<Rightarrow> bool" where
  "utf8_encodable s = list_all (\<lambda>c. c < 0x110000 \<and> (c < 0xD800 \<or> 0xE000 \<le> c)) s"

text \<open>The objects that \<open>hmacSign\<close> can turn into a message.\<close>

fun signable :: "pyobj \<Rightarrow> bool" where
  "signable (PyBytes b) = True"
| "signable (PyOther v) = utf8_encodable (str v)"


section \<open>Auxiliary facts\<close>

lemma length_iota: "length (iota rc a) = length a"
  by (cases a) (simp_all add: iota_def)

lemma length_keccak_round: "length (keccak_round a rc) = 25"
  by (simp add: keccak_round_def length_iota chi_def)

lemma length_foldl_keccak_round:
  "rcs \<noteq> [] \<Longrightarrow> length (foldl keccak_round a rcs) = 25"
  by (induction rcs rule: rev_induct) (simp_all add: length_keccak_round)

lemma length_keccak_f: "length (keccak_f a) = 25"
  unfolding keccak_f_def by (rule length_foldl_keccak_round) (simp add: keccak_rc_def)

lemma length_foldl_absorb:
  "length st = 25 \<Longrightarrow> length (foldl absorb st blocks) = 25"
  by (induction blocks arbitrary: st) (simp_all add: absorb_def length_keccak_f)

lemma length_concat_bytes_of_lane:
  "length (concat (map bytes_of_lane ls)) = 8 * length ls"
  by (induction ls) (simp_all add: bytes_of_lane_def)

lemma length_sha3_384: "length (sha3_384 m) = 48"
  by (simp add: sha3_384_def length_concat_bytes_of_lane length_foldl_absorb)

lemma length_hexdigest: "length (hexdigest bs) = 2 * length bs"
  by (induction bs) (simp_all add: hexdigest_def)

lemma hex_digit_lower: "d < 16 \<Longrightarrow> is_lower_hex (hex_digit d)"
  by (auto simp: is_lower_hex_def hex_digit_def)

lemma unat_byte_lt: "unat (b :: byte) < 256"
  using unsigned_less [of b] by simp

lemma unat_byte_div16: "unat (b :: byte) div 16 < 16"
  using unat_byte_lt [of b] by simp

lemma lower_hex_hexdigest: "list_all is_lower_hex (hexdigest bs)"
  by (induction bs) (simp_all add: hexdigest_def hex_digit_lower unat_byte_div16)

lemma is_lower_hex_ascii: "is_lower_hex c \<Longrightarrow> c < 128"
  by (auto simp: is_lower_hex_def)

lemma is_ascii_hexdigest: "is_ascii (hexdigest bs)"
  using lower_hex_hexdigest [of bs]
  by (auto simp: is_ascii_def list_all_iff dest: is_lower_hex_ascii)

lemma utf8_char_ascii: "c < 128 \<Longrightarrow> utf8_char c = Inr [of_nat c]"
  by (simp add: utf8_char_def)

lemma encode_utf8_ascii_bytes:
  "list_all (\<lambda>b. unat b < 128) bs \<Longrightarrow> encode_utf8 (map unat bs) = Inr bs"
  by (induction bs) (simp_all add: utf8_char_ascii)

lemma encode_utf8_append:
  "encode_utf8 (xs @ ys) =
     (case encode_utf8 xs of Inl e \<Rightarrow> Inl e
      | Inr a \<Rightarrow> (case encode_utf8 ys of Inl e \<Rightarrow> Inl e | Inr b \<Rightarrow> Inr (a @ b)))"
  by (induction xs) (auto split: sum.splits)

lemma b64_char_ascii: "i < 64 \<Longrightarrow> unat (b64_char i) < 128"
proof -
  have "list_all (\<lambda>c. unat (of_nat c :: byte) < 128) b64_alphabet"
    by (simp add: b64_alphabet_def py_def)
  moreover assume "i < 64"
  then have "i < length b64_alphabet" by (simp add: b64_alphabet_def py_def)
  ultimately show ?thesis
    by (simp add: b64_char_def list_all_length)
qed

lemma sextet_lt: "sextet n k < 64"
  by (simp add: sextet_def)

lemma urlsafe_b64encode_ascii: "list_all (\<lambda>b. unat b < 128) (urlsafe_b64encode bs)"
  by (induction bs rule: urlsafe_b64encode.induct)
     (simp_all add: Let_def b64_char_ascii sextet_lt)


lemma hex_val_hex_digit: "d < 16 \<Longrightarrow> hex_val (hex_digit d) = d"
  by (auto simp: hex_val_def hex_digit_def)

lemma unhex_hexdigest: "unhex (hexdigest bs) = bs"
proof (induction bs)
  case Nil
  show ?case by (simp add: hexdigest_def)
next
  case (Cons b bs)
  have "unat b mod 16 < 16" by simp
  then have "16 * hex_val (hex_digit (unat b div 16)) + hex_val (hex_digit (unat b mod 16)) = unat b"
    by (simp add: hex_val_hex_digit unat_byte_div16)
  with Cons show ?case by (simp add: hexdigest_def)
qed

lemma utf8_char_encodable:
  "c < 0x110000 \<and> (c < 0xD800 \<or> 0xE000 \<le> c) \<Longrightarrow> \<exists>bs. utf8_char c = Inr bs"
  by (auto simp: utf8_char_def)

lemma utf8_char_Inr_encodable:
  "utf8_char c = Inr bs \<Longrightarrow> c < 0x110000 \<and> (c < 0xD800 \<or> 0xE000 \<le> c)"
  by (auto simp: utf8_char_def split: if_splits)

lemma encode_utf8_total: "utf8_encodable s \<longleftrightarrow> (\<exists>bs. encode_utf8 s = Inr bs)"
proof (induction s)
  case Nil
  show ?case by (simp add: utf8_encodable_def)
next
  case (Cons c s)
  show ?case
  proof
    assume "utf8_encodable (c # s)"
    then have c: "c < 0x110000 \<and> (c < 0xD800 \<or> 0xE000 \<le> c)" and s: "utf8_encodable s"
      by (simp_all add: utf8_encodable_def)
    from utf8_char_encodable [OF c] obtain a where "utf8_char c = Inr a" ..
    moreover from s Cons obtain b where "encode_utf8 s = Inr b" by blast
    ultimately show "\<exists>bs. encode_utf8 (c # s) = Inr bs" by simp
  next
    assume "\<exists>bs. encode_utf8 (c # s) = Inr bs"
    then obtain a b where a: "utf8_char c = Inr a" and b: "encode_utf8 s = Inr b"
      by (auto split: sum.splits)
    from utf8_char_Inr_encodable [OF a] b Cons show "utf8_encodable (c # s)"
      by (auto simp: utf8_encodable_def)
  qed
qed

lemma encode_utf8_error: "encode_utf8 s = Inl e \<Longrightarrow> e = UnicodeEncodeError"
  by (induction s arbitrary: e) (auto simp: utf8_char_def split: sum.splits if_splits)

lemma hmacSign_Some:
  "viur_file_hmacKey cnf = Some key \<Longrightarrow>
     hmacSign cnf data =
       (case data of
          PyBytes b \<Rightarrow> Inr (hexdigest (hmac_sha3_384 key b))
        | PyOther v \<Rightarrow>
            (case encode_utf8 (str v) of
               Inl e \<Rightarrow> Inl e
             | Inr msg \<Rightarrow> Inr (hexdigest (hmac_sha3_384 key msg))))"
  by (simp add: hmacSign_def split: pyobj.splits sum.splits)

lemma hmacSign_None: "viur_file_hmacKey cnf = None \<Longrightarrow> hmacSign cnf data = Inl AssertionError"
  by (simp add: hmacSign_def)

lemma hmacSign_AssertionError_iff:
  "hmacSign cnf data = Inl AssertionError \<longleftrightarrow> viur_file_hmacKey cnf = None"
proof (cases "viur_file_hmacKey cnf")
  case None
  then show ?thesis by (simp add: hmacSign_None)
next
  case (Some key)
  then show ?thesis
    by (auto simp: hmacSign_Some split: pyobj.splits sum.splits dest: encode_utf8_error)
qed

lemma hmacSign_is_ascii: "hmacSign cnf data = Inr s \<Longrightarrow> is_ascii s"
  by (auto simp: hmacSign_def is_ascii_hexdigest split: option.splits pyobj.splits sum.splits)

lemma hmacSign_signable:
  "viur_file_hmacKey cnf = Some key \<Longrightarrow> signable data \<Longrightarrow> \<exists>sg. hmacSign cnf data = Inr sg"
  by (cases data) (auto simp: hmacSign_Some encode_utf8_total)

lemma hmacSign_Inr_key: "hmacSign cnf data = Inr s \<Longrightarrow> viur_file_hmacKey cnf \<noteq> None"
  by (auto simp: hmacSign_def split: option.splits)

lemma hmacVerify_AssertionError_iff:
  "hmacVerify cnf data sg = Inl AssertionError \<longleftrightarrow> viur_file_hmacKey cnf = None"
  by (auto simp: hmacVerify_def compare_digest_def hmacSign_AssertionError_iff hmacSign_None
      split: sum.splits if_splits dest: hmacSign_Inr_key)

lemma expiry_stamp_error: "expiry_stamp now expires = Inl e \<Longrightarrow> e = OverflowError"
  by (auto simp: expiry_stamp_def datetime_add_def Let_def split: option.splits if_splits sum.splits)

lemma decode_ascii_b64:
  "decode_ascii (urlsafe_b64encode raw) = Inr (map unat (urlsafe_b64encode raw))"
  by (simp add: decode_ascii_def urlsafe_b64encode_ascii)

lemma hmacSign_ascii_str:
  "list_all (\<lambda>b. unat b < 128) bs \<Longrightarrow>
     hmacSign cnf (PyOther (PyStr (map unat bs))) = hmacSign cnf (PyBytes bs)"
  by (simp add: hmacSign_def encode_utf8_ascii_bytes split: option.splits)

lemma downloadUrlFor_eq:
  "downloadUrlFor cnf now folder fileName derived expires =
     (case expiry_stamp now expires of
        Inl e \<Rightarrow> Inl e
      | Inr stamp \<Rightarrow>
          (case encode_utf8 (filePath_of folder fileName derived @ [0] @ stamp) of
             Inl e \<Rightarrow> Inl e
           | Inr raw \<Rightarrow>
               (case hmacSign cnf (PyBytes (urlsafe_b64encode raw)) of
                  Inl e \<Rightarrow> Inl e
                | Inr resstr \<Rightarrow>
                    Inr (py ''/file/download/'' @ map unat (urlsafe_b64encode raw)
                           @ py ''?sig='' @ resstr))))"
  by (simp add: downloadUrlFor_def Let_def decode_ascii_b64 split: sum.splits)

lemma downloadUrlFor_AssertionError:
  "downloadUrlFor cnf now folder fileName derived expires = Inl AssertionError \<Longrightarrow>
     viur_file_hmacKey cnf = None"
  by (auto simp: downloadUrlFor_eq hmacSign_AssertionError_iff
      split: sum.splits dest: expiry_stamp_error encode_utf8_error)

lemma downloadUrlFor_no_key:
  "viur_file_hmacKey cnf = None \<Longrightarrow>
     \<exists>e. downloadUrlFor cnf now folder fileName derived expires = Inl e"
  by (auto simp: downloadUrlFor_eq hmacSign_None split: sum.splits)

lemma digits_acc_pos:
  "0 < fuel \<Longrightarrow> digits_acc fuel n acc =
     (if n < 10 then (48 + n) # acc else digits_acc (fuel - 1) (n div 10) ((48 + n mod 10) # acc))"
  by (cases fuel) simp_all

lemma str_int_42: "str_int 42 = py ''42''"
  by (simp add: str_int_def str_nat_def digits_acc_pos py_def)

lemma str_int_0: "str_int 0 = py ''0''"
  by (simp add: str_int_def str_nat_def py_def)

lemma signable_42: "signable (PyOther (PyInt 42))"
  by (simp add: str_int_42 utf8_encodable_def py_def)

section \<open>\<open>hmacSign\<close>\<close>

text \<open>
  C3. With a key configured, \<open>hmacSign\<close> returns the HMAC-SHA3-384 of the message under
  the key, as hexadecimal digits: a \<open>bytes\<close> argument is the message itself, any other
  argument is turned into text by \<open>str()\<close> and the text is encoded in UTF-8. The result
  has 96 characters, all of them digits or lowercase letters \<open>a\<close> to \<open>f\<close>, and reading
  them back gives the 48 bytes of the code.
\<close>

theorem hmacSign_hmac_sha3_384_hex:
  "viur_file_hmacKey cnf = Some key \<Longrightarrow>
     hmacSign cnf (PyBytes b) = Inr (hexdigest (hmac_sha3_384 key b)) \<and>
     (encode_utf8 (str v) = Inr bs \<longrightarrow>
        hmacSign cnf (PyOther v) = Inr (hexdigest (hmac_sha3_384 key bs))) \<and>
     (hmacSign cnf data = Inr sg \<longrightarrow>
        length sg = 96 \<and> list_all is_lower_hex sg \<and> (\<exists>msg. unhex sg = hmac_sha3_384 key msg))"
proof (intro conjI impI)
  assume k: "viur_file_hmacKey cnf = Some key"
  then show "hmacSign cnf (PyBytes b) = Inr (hexdigest (hmac_sha3_384 key b))"
    by (simp add: hmacSign_Some)
  show "hmacSign cnf (PyOther v) = Inr (hexdigest (hmac_sha3_384 key bs))"
    if "encode_utf8 (str v) = Inr bs"
    using k that by (simp add: hmacSign_Some)
  assume "hmacSign cnf data = Inr sg"
  with k obtain msg where sg: "sg = hexdigest (hmac_sha3_384 key msg)"
    by (auto simp: hmacSign_Some split: pyobj.splits sum.splits)
  show "length sg = 96"
    by (simp add: sg length_hexdigest hmac_sha3_384_def Let_def length_sha3_384)
  show "list_all is_lower_hex sg"
    by (simp add: sg lower_hex_hexdigest)
  show "\<exists>msg. unhex sg = hmac_sha3_384 key msg"
    by (auto simp: sg unhex_hexdigest)
qed

text \<open>The statement at the key \<open>testkey\<close>, for a \<open>bytes\<close> message and for the integer 42.\<close>

theorem hmacSign_hmac_sha3_384_hex_witness:
  "viur_file_hmacKey \<lparr>viur_file_hmacKey = Some (pyb ''testkey'')\<rparr> = Some (pyb ''testkey'') \<and>
   hmacSign \<lparr>viur_file_hmacKey = Some (pyb ''testkey'')\<rparr> (PyBytes (pyb ''abc''))
     = Inr (hexdigest (hmac_sha3_384 (pyb ''testkey'') (pyb ''abc''))) \<and>
   encode_utf8 (str (PyInt 42)) = Inr (pyb ''42'') \<and>
   hmacSign \<lparr>viur_file_hmacKey = Some (pyb ''testkey'')\<rparr> (PyOther (PyInt 42))
     = Inr (hexdigest (hmac_sha3_384 (pyb ''testkey'') (pyb ''42'')))"
proof -
  have e: "encode_utf8 (str (PyInt 42)) = Inr (pyb ''42'')"
    by (simp add: str_int_42 py_def pyb_def utf8_char_def)
  show ?thesis
    using e hmacSign_hmac_sha3_384_hex [of "\<lparr>viur_file_hmacKey = Some (pyb ''testkey'')\<rparr>"
      "pyb ''testkey''" "pyb ''abc''" "PyInt 42" "pyb ''42''"]
    by simp
qed

text \<open>
  C4 (as amended). The failure for a missing key is the failed assertion of \<open>hmacSign\<close>,
  and it is raised exactly when the configured key is \<open>None\<close>. With any key, the empty
  one included, every \<open>bytes\<close> argument and every argument whose text can be encoded in
  UTF-8 is signed. \<open>hmacVerify\<close> raises the same failure in the same case; so does
  \<open>downloadUrlFor\<close>, unless an earlier step of it has already failed.
\<close>

theorem hmacSign_raises_iff_key_None:
  "(hmacSign cnf data = Inl AssertionError \<longleftrightarrow> viur_file_hmacKey cnf = None) \<and>
   (viur_file_hmacKey cnf = Some key \<and> signable data \<longrightarrow> (\<exists>sg. hmacSign cnf data = Inr sg)) \<and>
   (hmacVerify cnf data signature = Inl AssertionError \<longleftrightarrow> viur_file_hmacKey cnf = None) \<and>
   (downloadUrlFor cnf now folder fileName derived expires = Inl AssertionError
      \<longrightarrow> viur_file_hmacKey cnf = None) \<and>
   (viur_file_hmacKey cnf = None
      \<longrightarrow> (\<exists>e. downloadUrlFor cnf now folder fileName derived expires = Inl e))"
  using hmacSign_AssertionError_iff [of cnf data] hmacSign_signable [of cnf key data]
    hmacVerify_AssertionError_iff [of cnf data signature]
    downloadUrlFor_AssertionError [of cnf now folder fileName derived expires]
    downloadUrlFor_no_key [of cnf now folder fileName derived expires]
  by blast

text \<open>C4 as stated fails: with the empty key \<open>hmacSign\<close> returns a signature.\<close>

theorem hmacSign_empty_key_counterexample:
  "hmacSign \<lparr>viur_file_hmacKey = Some []\<rparr> (PyBytes (pyb ''x''))
     = Inr (hexdigest (hmac_sha3_384 [] (pyb ''x'')))"
  by (simp add: hmacSign_def)

text \<open>The amended statement at the keys \<open>None\<close> and \<open>b""\<close>.\<close>

theorem hmacSign_raises_iff_key_None_witness:
  "hmacSign \<lparr>viur_file_hmacKey = None\<rparr> (PyBytes (pyb ''x'')) = Inl AssertionError \<and>
   signable (PyOther (PyInt 42)) \<and>
   (\<exists>sg. hmacSign \<lparr>viur_file_hmacKey = Some []\<rparr> (PyOther (PyInt 42)) = Inr sg) \<and>
   hmacVerify \<lparr>viur_file_hmacKey = None\<rparr> (PyBytes (pyb ''x'')) (py ''00'') = Inl AssertionError \<and>
   (\<exists>e. downloadUrlFor \<lparr>viur_file_hmacKey = None\<rparr> 0 (py ''abc'') (py ''img.png'') False None = Inl e)"
  using signable_42
    hmacSign_raises_iff_key_None [of "\<lparr>viur_file_hmacKey = None\<rparr>" "PyBytes (pyb ''x'')"
      "[]" "py ''00''" 0 "py ''abc''" "py ''img.png''" False None]
    hmacSign_raises_iff_key_None [of "\<lparr>viur_file_hmacKey = Some []\<rparr>" "PyOther (PyInt 42)"
      "[]" "py ''00''" 0 "py ''abc''" "py ''img.png''" False None]
  by simp

section \<open>\<open>hmacVerify\<close>\<close>

text \<open>
  C2 (as amended). A failure of \<open>hmacSign\<close> is the failure of \<open>hmacVerify\<close>. When
  \<open>hmacSign\<close> returns \<open>s\<close>, then for every signature of ASCII characters only
  \<open>hmacVerify\<close> returns whether the signature equals \<open>s\<close>, and for a signature with a
  non-ASCII character it raises \<open>TypeError\<close>.
\<close>

theorem hmacVerify_ascii_signature:
  "(\<forall>e. hmacSign cnf data = Inl e \<longrightarrow> hmacVerify cnf data signature = Inl e) \<and>
   (\<forall>s. hmacSign cnf data = Inr s \<longrightarrow>
      hmacVerify cnf data signature
        = (if is_ascii signature then Inr (signature = s) else Inl TypeError))"
  by (auto simp: hmacVerify_def compare_digest_def dest: hmacSign_is_ascii)

text \<open>C2 as stated fails: a mismatched signature with the character U+00E9 raises.\<close>

theorem hmacVerify_non_ascii_counterexample:
  "hmacVerify \<lparr>viur_file_hmacKey = Some (pyb ''testkey'')\<rparr> (PyBytes (pyb ''x'')) [233]
     = Inl TypeError"
  by (simp add: hmacVerify_def hmacSign_def compare_digest_def is_ascii_def)

text \<open>The amended statement without a key, for a wrong signature and for the right one.\<close>

theorem hmacVerify_ascii_signature_witness:
  "hmacSign \<lparr>viur_file_hmacKey = None\<rparr> (PyBytes (pyb ''x'')) = Inl AssertionError \<and>
   hmacVerify \<lparr>viur_file_hmacKey = None\<rparr> (PyBytes (pyb ''x'')) (py ''00'') = Inl AssertionError \<and>
   hmacSign \<lparr>viur_file_hmacKey = Some (pyb ''testkey'')\<rparr> (PyBytes (pyb ''x''))
     = Inr (hexdigest (hmac_sha3_384 (pyb ''testkey'') (pyb ''x''))) \<and>
   is_ascii (py ''00'') \<and>
   hmacVerify \<lparr>viur_file_hmacKey = Some (pyb ''testkey'')\<rparr> (PyBytes (pyb ''x'')) (py ''00'')
     = Inr (py ''00'' = hexdigest (hmac_sha3_384 (pyb ''testkey'') (pyb ''x''))) \<and>
   hmacVerify \<lparr>viur_file_hmacKey = Some (pyb ''testkey'')\<rparr> (PyBytes (pyb ''x''))
       (hexdigest (hmac_sha3_384 (pyb ''testkey'') (pyb ''x''))) = Inr True"
proof -
  have a: "is_ascii (py ''00'')"
    by (simp add: is_ascii_def py_def)
  have n: "hmacSign \<lparr>viur_file_hmacKey = None\<rparr> (PyBytes (pyb ''x'')) = Inl AssertionError"
    by (simp add: hmacSign_def)
  have k: "hmacSign \<lparr>viur_file_hmacKey = Some (pyb ''testkey'')\<rparr> (PyBytes (pyb ''x''))
     = Inr (hexdigest (hmac_sha3_384 (pyb ''testkey'') (pyb ''x'')))"
    by (simp add: hmacSign_def)
  show ?thesis
    using a n k is_ascii_hexdigest [of "hmac_sha3_384 (pyb ''testkey'') (pyb ''x'')"]
      hmacVerify_ascii_signature [of "\<lparr>viur_file_hmacKey = None\<rparr>" "PyBytes (pyb ''x'')" "py ''00''"]
      hmacVerify_ascii_signature [of "\<lparr>viur_file_hmacKey = Some (pyb ''testkey'')\<rparr>"
        "PyBytes (pyb ''x'')" "py ''00''"]
      hmacVerify_ascii_signature [of "\<lparr>viur_file_hmacKey = Some (pyb ''testkey'')\<rparr>"
        "PyBytes (pyb ''x'')" "hexdigest (hmac_sha3_384 (pyb ''testkey'') (pyb ''x''))"]
    by simp
qed


section \<open>\<open>downloadUrlFor\<close>: the URL, the stamp and the clock\<close>

lemmas calendar_defs = ymd2ord_def days_before_year_def days_before_month_def
  days_before_month_tab_def days_in_month_tab_def days_in_month_def is_leap_def
  ord2ymd_def month_day_def us_per_day_def us_per_minute_def max_ordinal_def

lemma datetime_of_2024_01_01: "datetime_of 2024 1 1 0 0 0 = 63839664000000000"
  by (simp add: datetime_of_def calendar_defs Let_def)

lemma str_nat_2024: "str_nat 2024 = py ''2024''"
  by (simp add: str_nat_def digits_acc_pos py_def)

lemma strftime_2024_01_01_0100: "strftime_YmdHM (63839664000000000 + 3600000000) = py ''202401010100''"
  by (simp add: strftime_YmdHM_def calendar_defs Let_def pad2_def str_nat_2024) (simp add: py_def)

lemma b64_payload:
  "urlsafe_b64encode (pyb ''abc/source/img.png'' @ 0 # pyb ''202401010100'')
     = pyb ''YWJjL3NvdXJjZS9pbWcucG5nADIwMjQwMTAxMDEwMA==''"
  by (simp add: pyb_def b64_char_def b64_alphabet_def py_def sextet_def)

lemma downloadUrlFor_Inr_iff:
  "downloadUrlFor cnf now folder fileName derived expires = Inr url \<longleftrightarrow>
     (\<exists>stamp raw signature.
        expiry_stamp now expires = Inr stamp \<and>
        encode_utf8 (filePath_of folder fileName derived @ [0] @ stamp) = Inr raw \<and>
        hmacSign cnf (PyBytes (urlsafe_b64encode raw)) = Inr signature \<and>
        url = py ''/file/download/'' @ map unat (urlsafe_b64encode raw) @ py ''?sig='' @ signature)"
  by (auto simp: downloadUrlFor_eq split: sum.splits)

text \<open>
  C6. \<open>downloadUrlFor\<close> returns a URL exactly when the expiry stamp can be computed,
  the payload \<open>filePath + NUL + stamp\<close> can be encoded in UTF-8 and the encoded path can be
  signed; the URL is then \<open>/file/download/\<close>, the base64url text of the payload,
  \<open>?sig=\<close> and the signature. The signature is \<open>hmacSign\<close> of the encoded path, the
  same for its bytes (as the source passes them) and for its text.
\<close>

theorem downloadUrlFor_url:
  "downloadUrlFor cnf now folder fileName derived expires = Inr url \<longleftrightarrow>
     (\<exists>stamp raw encodedPath signature.
        expiry_stamp now expires = Inr stamp \<and>
        encode_utf8 (filePath_of folder fileName derived @ [0] @ stamp) = Inr raw \<and>
        encodedPath = map unat (urlsafe_b64encode raw) \<and>
        hmacSign cnf (PyOther (PyStr encodedPath)) = Inr signature \<and>
        hmacSign cnf (PyBytes (urlsafe_b64encode raw)) = Inr signature \<and>
        url = py ''/file/download/'' @ encodedPath @ py ''?sig='' @ signature)"
  by (auto simp: downloadUrlFor_Inr_iff hmacSign_ascii_str urlsafe_b64encode_ascii)

lemma expiry_stamp_2024_60min:
  "expiry_stamp (datetime_of 2024 1 1 0 0 0) (Some (timedelta_of 0 0 60 0)) = Inr (py ''202401010100'')"
proof -
  have "timedelta_of 0 0 60 0 = 3600000000"
    by (simp add: timedelta_of_def us_per_minute_def)
  then show ?thesis
    using strftime_2024_01_01_0100
    by (simp add: expiry_stamp_def datetime_of_2024_01_01 timedelta_truthy_def datetime_add_def
        max_ordinal_def us_per_day_def)
qed

lemma encode_utf8_pyb: "list_all (\<lambda>c. c < 128) s \<Longrightarrow> encode_utf8 s = Inr (map of_nat s)"
  by (induction s) (simp_all add: utf8_char_def)

lemma py_ascii: "list_all (\<lambda>c. c < 128) (py ''abc/source/img.png'' @ [0] @ py ''202401010100'')"
  by (simp add: py_def)

lemma payload_bytes:
  "encode_utf8 (py ''abc/source/img.png'' @ 0 # py ''202401010100'')
     = Inr (pyb ''abc/source/img.png'' @ 0 # pyb ''202401010100'')"
  using encode_utf8_pyb [OF py_ascii] by (simp add: py_def pyb_def)

lemma filePath_abc: "filePath_of (py ''abc'') (py ''img.png'') False = py ''abc/source/img.png''"
  by (simp add: filePath_of_def py_def)

lemma downloadUrlFor_scenario:
  "downloadUrlFor \<lparr>viur_file_hmacKey = Some (pyb ''testkey'')\<rparr> (datetime_of 2024 1 1 0 0 0)
       (py ''abc'') (py ''img.png'') False (Some (timedelta_of 0 0 60 0))
     = Inr (py ''/file/download/'' @ py ''YWJjL3NvdXJjZS9pbWcucG5nADIwMjQwMTAxMDEwMA=='' @ py ''?sig=''
            @ hexdigest (hmac_sha3_384 (pyb ''testkey'')
                (pyb ''YWJjL3NvdXJjZS9pbWcucG5nADIwMjQwMTAxMDEwMA=='')))"
proof -
  have "map unat (pyb ''YWJjL3NvdXJjZS9pbWcucG5nADIwMjQwMTAxMDEwMA=='')
          = py ''YWJjL3NvdXJjZS9pbWcucG5nADIwMjQwMTAxMDEwMA==''"
    by (simp add: py_def pyb_def)
  then show ?thesis
    by (simp add: downloadUrlFor_eq expiry_stamp_2024_60min filePath_abc payload_bytes b64_payload
        hmacSign_def)
qed

text \<open>
  The statement for the file \<open>img.png\<close> of the folder \<open>abc\<close>, issued for an hour
  at 2024-01-01T00:00 under the key \<open>testkey\<close>.
\<close>

theorem downloadUrlFor_url_witness:
  "\<exists>stamp raw encodedPath signature.
     expiry_stamp (datetime_of 2024 1 1 0 0 0) (Some (timedelta_of 0 0 60 0)) = Inr stamp \<and>
     encode_utf8 (filePath_of (py ''abc'') (py ''img.png'') False @ [0] @ stamp) = Inr raw \<and>
     encodedPath = map unat (urlsafe_b64encode raw) \<and>
     hmacSign \<lparr>viur_file_hmacKey = Some (pyb ''testkey'')\<rparr> (PyOther (PyStr encodedPath)) = Inr signature \<and>
     hmacSign \<lparr>viur_file_hmacKey = Some (pyb ''testkey'')\<rparr> (PyBytes (urlsafe_b64encode raw)) = Inr signature \<and>
     py ''/file/download/'' @ py ''YWJjL3NvdXJjZS9pbWcucG5nADIwMjQwMTAxMDEwMA=='' @ py ''?sig=''
            @ hexdigest (hmac_sha3_384 (pyb ''testkey'')
                (pyb ''YWJjL3NvdXJjZS9pbWcucG5nADIwMjQwMTAxMDEwMA==''))
       = py ''/file/download/'' @ encodedPath @ py ''?sig='' @ signature"
  using downloadUrlFor_scenario
    downloadUrlFor_url [of "\<lparr>viur_file_hmacKey = Some (pyb ''testkey'')\<rparr>" "datetime_of 2024 1 1 0 0 0"
      "py ''abc''" "py ''img.png''" False "Some (timedelta_of 0 0 60 0)"
      "py ''/file/download/'' @ py ''YWJjL3NvdXJjZS9pbWcucG5nADIwMjQwMTAxMDEwMA=='' @ py ''?sig=''
            @ hexdigest (hmac_sha3_384 (pyb ''testkey'')
                (pyb ''YWJjL3NvdXJjZS9pbWcucG5nADIwMjQwMTAxMDEwMA==''))"]
  by blast

text \<open>
  C7. The file path is \<open>{folder}/derived/{fileName}\<close> when \<open>derived\<close> is true and
  \<open>{folder}/source/{fileName}\<close> when it is false, and this path, followed by NUL and the
  stamp, is the payload that a returned URL carries.
\<close>

theorem downloadUrlFor_filePath:
  "filePath_of folder fileName True = folder @ py ''/derived/'' @ fileName \<and>
   filePath_of folder fileName False = folder @ py ''/source/'' @ fileName \<and>
   (downloadUrlFor cnf now folder fileName derived expires = Inr url \<longrightarrow>
      (\<exists>stamp raw signature.
         encode_utf8 (folder @ py (if derived then ''/derived/'' else ''/source/'') @ fileName
                        @ [0] @ stamp) = Inr raw \<and>
         url = py ''/file/download/'' @ map unat (urlsafe_b64encode raw) @ py ''?sig='' @ signature))"
  by (auto simp: downloadUrlFor_Inr_iff filePath_of_def)

text \<open>
  The statement for the folder \<open>abc\<close> and the file \<open>img.png\<close>.
\<close>

theorem downloadUrlFor_filePath_witness:
  "filePath_of (py ''abc'') (py ''img.png'') True = py ''abc/derived/img.png'' \<and>
   filePath_of (py ''abc'') (py ''img.png'') False = py ''abc/source/img.png'' \<and>
   (\<exists>stamp raw signature.
         encode_utf8 (py ''abc'' @ py ''/source/'' @ py ''img.png'' @ [0] @ stamp) = Inr raw \<and>
         py ''/file/download/'' @ py ''YWJjL3NvdXJjZS9pbWcucG5nADIwMjQwMTAxMDEwMA=='' @ py ''?sig=''
            @ hexdigest (hmac_sha3_384 (pyb ''testkey'')
                (pyb ''YWJjL3NvdXJjZS9pbWcucG5nADIwMjQwMTAxMDEwMA==''))
          = py ''/file/download/'' @ map unat (urlsafe_b64encode raw) @ py ''?sig='' @ signature)"
proof -
  have p: "py ''abc'' @ py ''/derived/'' @ py ''img.png'' = py ''abc/derived/img.png''"
      "py ''abc'' @ py ''/source/'' @ py ''img.png'' = py ''abc/source/img.png''"
    by (simp_all add: py_def)
  show ?thesis
    using downloadUrlFor_scenario p
      downloadUrlFor_filePath [of "py ''abc''" "py ''img.png''"
        "\<lparr>viur_file_hmacKey = Some (pyb ''testkey'')\<rparr>" "datetime_of 2024 1 1 0 0 0" False
        "Some (timedelta_of 0 0 60 0)"
        "py ''/file/download/'' @ py ''YWJjL3NvdXJjZS9pbWcucG5nADIwMjQwMTAxMDEwMA=='' @ py ''?sig=''
            @ hexdigest (hmac_sha3_384 (pyb ''testkey'')
                (pyb ''YWJjL3NvdXJjZS9pbWcucG5nADIwMjQwMTAxMDEwMA==''))"]
    by simp
qed



lemma strftime_2024_01_01_0000: "strftime_YmdHM 63839664000000000 = py ''202401010000''"
  by (simp add: strftime_YmdHM_def calendar_defs Let_def pad2_def str_nat_2024) (simp add: py_def)

text \<open>
  C5 at \<open>expires = timedelta(0)\<close> and the clock at 2024-01-01T00:00: the stamp is the
  sentinel \<open>0\<close>, although \<open>now + expires\<close> is the time 2024-01-01T00:00, whose stamp is
  \<open>202401010000\<close>.
\<close>

theorem expiry_stamp_zero_ttl_2024:
  "expiry_stamp (datetime_of 2024 1 1 0 0 0) (Some (timedelta_of 0 0 0 0)) = Inr (py ''0'') \<and>
   datetime_add (datetime_of 2024 1 1 0 0 0) (timedelta_of 0 0 0 0) = Inr (datetime_of 2024 1 1 0 0 0) \<and>
   strftime_YmdHM (datetime_of 2024 1 1 0 0 0) = py ''202401010000''"
  by (simp add: expiry_stamp_def timedelta_of_def timedelta_truthy_def str_int_0
      datetime_of_2024_01_01 strftime_2024_01_01_0000 datetime_add_def max_ordinal_def us_per_day_def)

lemma int_div_less_iff: "0 < b \<Longrightarrow> (a div b < c) = (a < c * (b::int))"
proof
  assume b: "0 < b" and l: "a div b < c"
  have e: "a = b * (a div b) + a mod b" by simp
  have "a mod b < b" using b by (rule pos_mod_bound)
  with e have "a < b * (a div b) + b" by linarith
  also have "\<dots> = b * (a div b + 1)" by (simp add: algebra_simps)
  also have "\<dots> \<le> b * c" using b l by (intro mult_left_mono) simp_all
  finally show "a < c * b" by (simp add: mult.commute)
next
  assume b: "0 < b" and l: "a < c * b"
  show "a div b < c"
  proof (rule ccontr)
    assume "\<not> a div b < c"
    then have "c \<le> a div b" by simp
    then have "b * c \<le> b * (a div b)" using b by (intro mult_left_mono) simp_all
    moreover have "0 \<le> a mod b" using b by (rule pos_mod_sign)
    moreover have "a = b * (a div b) + a mod b" by simp
    ultimately have "b * c \<le> a" by linarith
    then show False using l by (simp add: mult.commute)
  qed
qed

lemma strftime_minute:
  assumes "t1 div us_per_minute = t2 div us_per_minute"
  shows "strftime_YmdHM t1 = strftime_YmdHM t2"
proof -
  have d: "t div us_per_day = t div us_per_minute div 1440" for t
    by (simp add: us_per_day_def us_per_minute_def zdiv_zmult2_eq [symmetric])
  have m: "t mod us_per_day div us_per_minute = t div us_per_minute mod 1440" for t
  proof -
    have "t mod (us_per_minute * 1440) = us_per_minute * (t div us_per_minute mod 1440) + t mod us_per_minute"
      by (rule zmod_zmult2_eq) simp
    moreover have "0 \<le> t mod us_per_minute" "t mod us_per_minute < us_per_minute"
      by (simp_all add: us_per_minute_def)
    ultimately have "t mod (us_per_minute * 1440) div us_per_minute = t div us_per_minute mod 1440"
      by (simp add: us_per_minute_def)
    then show ?thesis
      by (simp add: us_per_day_def us_per_minute_def)
  qed
  show ?thesis
    unfolding strftime_YmdHM_def d m assms ..
qed

lemma datetime_add_minute:
  assumes "(t1 + d) div us_per_minute = (t2 + d) div us_per_minute"
  shows "datetime_add t1 d = Inl OverflowError \<and> datetime_add t2 d = Inl OverflowError \<or>
         datetime_add t1 d = Inr (t1 + d) \<and> datetime_add t2 d = Inr (t2 + d)"
proof -
  have a: "(0 \<le> t) = (0 \<le> t div us_per_minute)" for t
    by (simp add: us_per_minute_def pos_imp_zdiv_nonneg_iff)
  have b: "(t < max_ordinal * us_per_day) = (t div us_per_minute < max_ordinal * 1440)" for t
    by (simp add: int_div_less_iff us_per_minute_def max_ordinal_def us_per_day_def)
  have "(0 \<le> t1 + d) = (0 \<le> (t1 + d) div us_per_minute)"
    by (rule a)
  also have "\<dots> = (0 \<le> (t2 + d) div us_per_minute)"
    by (simp only: assms)
  also have "\<dots> = (0 \<le> t2 + d)"
    by (rule a [symmetric])
  finally have lo: "(0 \<le> t1 + d) = (0 \<le> t2 + d)" .
  have "(t1 + d < max_ordinal * us_per_day) = ((t1 + d) div us_per_minute < max_ordinal * 1440)"
    by (rule b)
  also have "\<dots> = ((t2 + d) div us_per_minute < max_ordinal * 1440)"
    by (simp only: assms)
  also have "\<dots> = (t2 + d < max_ordinal * us_per_day)"
    by (rule b [symmetric])
  finally have hi: "(t1 + d < max_ordinal * us_per_day) = (t2 + d < max_ordinal * us_per_day)" .
  show ?thesis
    by (simp add: datetime_add_def Let_def lo hi)
qed

lemma expiry_stamp_minute:
  assumes "\<And>d. expires = Some d \<Longrightarrow> (now1 + d) div us_per_minute = (now2 + d) div us_per_minute"
  shows "expiry_stamp now1 expires = expiry_stamp now2 expires"
proof (cases expires)
  case None
  then show ?thesis by (simp add: expiry_stamp_def)
next
  case (Some d)
  from assms [OF Some] have e: "(now1 + d) div us_per_minute = (now2 + d) div us_per_minute" .
  from datetime_add_minute [OF e] strftime_minute [OF e] Some show ?thesis
    by (auto simp: expiry_stamp_def)
qed

lemma whole_minutes_shift:
  assumes "now1 div us_per_minute = now2 div us_per_minute" and "d mod us_per_minute = 0"
  shows "(now1 + d) div us_per_minute = (now2 + d) div us_per_minute"
proof -
  from assms(2) have "us_per_minute dvd d" by (simp add: dvd_eq_mod_eq_0)
  then have "(t + d) div us_per_minute = t div us_per_minute + d div us_per_minute" for t
    by (simp add: div_plus_div_distrib_dvd_right)
  with assms(1) show ?thesis by simp
qed

text \<open>
  C8 (as amended). Two calls with the same arguments, at two readings of the clock in
  the same minute, return the same result when \<open>expires\<close> is \<open>None\<close> or a whole number
  of minutes (zero included). The result is a function of the configuration, the clock and
  the arguments alone.
\<close>

theorem downloadUrlFor_same_minute:
  assumes "now1 div us_per_minute = now2 div us_per_minute"
    and "expires = None \<or> (\<exists>d. expires = Some d \<and> d mod us_per_minute = 0)"
  shows "downloadUrlFor cnf now1 folder fileName derived expires
           = downloadUrlFor cnf now2 folder fileName derived expires"
proof -
  have "expiry_stamp now1 expires = expiry_stamp now2 expires"
    using assms by (intro expiry_stamp_minute) (auto intro: whole_minutes_shift)
  then show ?thesis by (simp add: downloadUrlFor_eq)
qed


text \<open>
  The amended statement at 00:00:10 and 00:00:40 of 2024-01-01, for one hour.
\<close>

theorem downloadUrlFor_same_minute_witness:
  "datetime_of 2024 1 1 0 0 10 div us_per_minute = datetime_of 2024 1 1 0 0 40 div us_per_minute \<and>
   timedelta_of 0 0 60 0 mod us_per_minute = 0 \<and>
   downloadUrlFor \<lparr>viur_file_hmacKey = Some (pyb ''testkey'')\<rparr> (datetime_of 2024 1 1 0 0 10)
       (py ''abc'') (py ''img.png'') False (Some (timedelta_of 0 0 60 0))
     = downloadUrlFor \<lparr>viur_file_hmacKey = Some (pyb ''testkey'')\<rparr> (datetime_of 2024 1 1 0 0 40)
       (py ''abc'') (py ''img.png'') False (Some (timedelta_of 0 0 60 0))"
proof -
  have m: "datetime_of 2024 1 1 0 0 10 div us_per_minute = datetime_of 2024 1 1 0 0 40 div us_per_minute"
    by (simp add: datetime_of_def calendar_defs Let_def)
  have d: "timedelta_of 0 0 60 0 mod us_per_minute = 0"
    by (simp add: timedelta_of_def us_per_minute_def)
  have e: "Some (timedelta_of 0 0 60 0) = None
      \<or> (\<exists>d. Some (timedelta_of 0 0 60 0) = Some d \<and> d mod us_per_minute = 0)"
    using d by simp
  show ?thesis
    by (intro conjI m d downloadUrlFor_same_minute [OF m e])
qed

lemma stamp_000040: "expiry_stamp (datetime_of 2024 1 1 0 0 10) (Some (timedelta_of 0 0 0 30)) = Inr (py ''202401010000'')"
  by (simp add: expiry_stamp_def datetime_add_def timedelta_truthy_def timedelta_of_def
      datetime_of_def calendar_defs Let_def strftime_YmdHM_def pad2_def str_nat_2024) (simp add: py_def)

lemma stamp_000110: "expiry_stamp (datetime_of 2024 1 1 0 0 40) (Some (timedelta_of 0 0 0 30)) = Inr (py ''202401010001'')"
  by (simp add: expiry_stamp_def datetime_add_def timedelta_truthy_def timedelta_of_def
      datetime_of_def calendar_defs Let_def strftime_YmdHM_def pad2_def str_nat_2024) (simp add: py_def)

lemma raw_0000: "encode_utf8 (py ''abc/source/img.png'' @ 0 # py ''202401010000'')
    = Inr (pyb ''abc/source/img.png'' @ 0 # pyb ''202401010000'')"
  by (simp add: py_def pyb_def utf8_char_def)

lemma raw_0001: "encode_utf8 (py ''abc/source/img.png'' @ 0 # py ''202401010001'')
    = Inr (pyb ''abc/source/img.png'' @ 0 # pyb ''202401010001'')"
  by (simp add: py_def pyb_def utf8_char_def)

lemma b64_0000: "map unat (urlsafe_b64encode (pyb ''abc/source/img.png'' @ 0 # pyb ''202401010000''))
    = py ''YWJjL3NvdXJjZS9pbWcucG5nADIwMjQwMTAxMDAwMA==''"
  by (simp add: pyb_def b64_char_def b64_alphabet_def py_def sextet_def)

lemma b64_0001: "map unat (urlsafe_b64encode (pyb ''abc/source/img.png'' @ 0 # pyb ''202401010001''))
    = py ''YWJjL3NvdXJjZS9pbWcucG5nADIwMjQwMTAxMDAwMQ==''"
  by (simp add: pyb_def b64_char_def b64_alphabet_def py_def sextet_def)

text \<open>
  C8 as stated fails: at 00:00:10 and 00:00:40 of the same minute, with
  \<open>expires\<close> of thirty seconds, the stamps are \<open>202401010000\<close> and \<open>202401010001\<close> and
  the two URLs differ.
\<close>

theorem downloadUrlFor_same_minute_counterexample:
  "datetime_of 2024 1 1 0 0 10 div us_per_minute = datetime_of 2024 1 1 0 0 40 div us_per_minute \<and>
   downloadUrlFor \<lparr>viur_file_hmacKey = Some (pyb ''testkey'')\<rparr> (datetime_of 2024 1 1 0 0 10)
       (py ''abc'') (py ''img.png'') False (Some (timedelta_of 0 0 0 30))
     \<noteq> downloadUrlFor \<lparr>viur_file_hmacKey = Some (pyb ''testkey'')\<rparr> (datetime_of 2024 1 1 0 0 40)
       (py ''abc'') (py ''img.png'') False (Some (timedelta_of 0 0 0 30))"
proof -
  have m: "datetime_of 2024 1 1 0 0 10 div us_per_minute = datetime_of 2024 1 1 0 0 40 div us_per_minute"
    by (simp add: datetime_of_def calendar_defs Let_def)
  have "py ''YWJjL3NvdXJjZS9pbWcucG5nADIwMjQwMTAxMDAwMA=='' @ x
          \<noteq> py ''YWJjL3NvdXJjZS9pbWcucG5nADIwMjQwMTAxMDAwMQ=='' @ y" for x y :: pystr
    by (simp add: py_def)
  then have "downloadUrlFor \<lparr>viur_file_hmacKey = Some (pyb ''testkey'')\<rparr> (datetime_of 2024 1 1 0 0 10)
       (py ''abc'') (py ''img.png'') False (Some (timedelta_of 0 0 0 30))
     \<noteq> downloadUrlFor \<lparr>viur_file_hmacKey = Some (pyb ''testkey'')\<rparr> (datetime_of 2024 1 1 0 0 40)
       (py ''abc'') (py ''img.png'') False (Some (timedelta_of 0 0 0 30))"
    by (simp add: downloadUrlFor_eq stamp_000040 stamp_000110 filePath_abc raw_0000 raw_0001
        b64_0000 b64_0001 hmacSign_def)
  with m show ?thesis by (intro conjI)
qed


section \<open>The calendar: ordinals, dates and stamps\<close>

lemma month_day_ok:
  assumes "0 \<le> n" and "n < (if leap then 366 else 365)" and "month_day leap n = (m, d)"
  shows "1 \<le> m \<and> m \<le> 12 \<and> 1 \<le> d
    \<and> d \<le> days_in_month_tab ! nat m + (if m = 2 \<and> leap then 1 else 0)
    \<and> days_before_month_tab ! nat m + (if m > 2 \<and> leap then 1 else 0) + d = n + 1"
proof -
  define k where "k = (n + 50) div 32"
  have lo: "32 * k \<le> n + 50" and hi: "n + 50 < 32 * k + 32"
    unfolding k_def by arith+
  with assms(1,2) have "1 \<le> k" and "k \<le> 12"
    by (auto split: if_splits)
  then have "k = 1 \<or> k = 2 \<or> k = 3 \<or> k = 4 \<or> k = 5 \<or> k = 6 \<or> k = 7 \<or> k = 8
    \<or> k = 9 \<or> k = 10 \<or> k = 11 \<or> k = 12"
    by arith
  with assms lo hi show ?thesis
    unfolding month_day_def Let_def k_def [symmetric]
    by (elim disjE) (auto simp: days_in_month_tab_def days_before_month_tab_def split: if_splits)
qed

lemma days_before_year_decomp:
  assumes "0 \<le> b" "b \<le> 3" "0 \<le> c" "c \<le> 24" "0 \<le> e" "e \<le> 3"
  shows "days_before_year (400 * a + 100 * b + 4 * c + e + 1)
           = 146097 * a + 36524 * b + 1461 * c + 365 * e"
proof -
  let ?Y = "400 * a + 100 * b + 4 * c + e"
  have d4: "?Y div 4 = 100 * a + 25 * b + c"
    using assms by (intro int_div_pos_eq [where r = e]) simp_all
  have d100: "?Y div 100 = 4 * a + b"
    using assms by (intro int_div_pos_eq [where r = "4 * c + e"]) simp_all
  have d400: "?Y div 400 = a"
    using assms by (intro int_div_pos_eq [where r = "100 * b + 4 * c + e"]) simp_all
  show ?thesis
    by (simp add: days_before_year_def Let_def d4 d100 d400)
qed

lemma is_leap_decomp:
  assumes "0 \<le> b" "b \<le> 3" "0 \<le> c" "c \<le> 24" "0 \<le> e" "e \<le> 3"
  shows "is_leap (400 * a + 100 * b + 4 * c + e + 1) \<longleftrightarrow> e = 3 \<and> (c \<noteq> 24 \<or> b = 3)"
proof -
  let ?y = "400 * a + 100 * b + 4 * c + e + 1"
  show ?thesis
  proof (cases "e = 3")
    case False
    have "?y mod 4 = e + 1"
      using assms False by (intro int_mod_pos_eq [where q = "100 * a + 25 * b + c"]) simp_all
    with assms False show ?thesis by (simp add: is_leap_def)
  next
    case e: True
    have m4: "?y mod 4 = 0"
      using e by (intro int_mod_pos_eq [where q = "100 * a + 25 * b + c + 1"]) simp_all
    show ?thesis
    proof (cases "c = 24")
      case False
      have "?y mod 100 = 4 * c + 4"
        using assms e False by (intro int_mod_pos_eq [where q = "4 * a + b"]) simp_all
      with assms e False m4 show ?thesis by (simp add: is_leap_def)
    next
      case c: True
      have m100: "?y mod 100 = 0"
        using e c by (intro int_mod_pos_eq [where q = "4 * a + b + 1"]) simp_all
      show ?thesis
      proof (cases "b = 3")
        case True
        have "?y mod 400 = 0"
          using e c True by (intro int_mod_pos_eq [where q = "a + 1"]) simp_all
        with e c True m4 m100 show ?thesis by (simp add: is_leap_def)
      next
        case False
        have "?y mod 400 = 100 * b + 100"
          using assms e c False by (intro int_mod_pos_eq [where q = a]) simp_all
        with assms e c False m4 m100 show ?thesis by (simp add: is_leap_def)
      qed
    qed
  qed
qed

lemma ord2ymd_ok:
  assumes "1 \<le> n" and "ord2ymd n = (y, m, d)"
  shows "1 \<le> y \<and> 1 \<le> m \<and> m \<le> 12 \<and> 1 \<le> d \<and> d \<le> days_in_month y m \<and> ymd2ord y m d = n"
proof -
  define a where "a = (n - 1) div 146097"
  define r1 where "r1 = (n - 1) mod 146097"
  define b where "b = r1 div 36524"
  define r2 where "r2 = r1 mod 36524"
  define c where "c = r2 div 1461"
  define r3 where "r3 = r2 mod 1461"
  define e where "e = r3 div 365"
  define r4 where "r4 = r3 mod 365"
  have n: "n - 1 = 146097 * a + r1" and r1: "0 \<le> r1" "r1 < 146097"
    by (simp_all add: a_def r1_def)
  have r1': "r1 = 36524 * b + r2" and r2: "0 \<le> r2" "r2 < 36524"
    by (simp_all add: b_def r2_def)
  have r2': "r2 = 1461 * c + r3" and r3: "0 \<le> r3" "r3 < 1461"
    by (simp_all add: c_def r3_def)
  have r3': "r3 = 365 * e + r4" and r4: "0 \<le> r4" "r4 < 365"
    by (simp_all add: e_def r4_def)
  have a: "0 \<le> a" using assms(1) n r1 by linarith
  have b: "0 \<le> b" "b \<le> 4" using r1 r1' r2 by linarith+
  have c: "0 \<le> c" "c \<le> 24" using r2 r2' r3 by linarith+
  have e: "0 \<le> e" "e \<le> 4" using r3 r3' r4 by linarith+
  have ord: "ord2ymd n =
      (if e = 4 \<or> b = 4 then (400 * a + 100 * b + 4 * c + e, 12, 31)
       else (case month_day (e = 3 \<and> (c \<noteq> 24 \<or> b = 3)) r4 of
               (month, day) \<Rightarrow> (400 * a + 100 * b + 4 * c + e + 1, month, day)))"
    by (simp add: ord2ymd_def Let_def a_def r1_def b_def r2_def c_def r3_def e_def r4_def)
  show ?thesis
  proof (cases "b = 4")
    case True
    with r1 r1' r2 have "r2 = 0" by linarith
    then have z: "c = 0" "e = 0" "r4 = 0"
      by (simp_all add: c_def e_def r4_def r3_def)
    from ord True assms(2) z have ymd: "y = 400 * a + 400" "m = 12" "d = 31"
      by simp_all
    have y: "y = 400 * a + 100 * 3 + 4 * 24 + 3 + 1" using ymd by simp
    have dby: "days_before_year y = 146097 * a + 36524 * 3 + 1461 * 24 + 365 * 3"
      unfolding y by (rule days_before_year_decomp) simp_all
    have leap: "is_leap y"
      unfolding y by (subst is_leap_decomp) simp_all
    from a ymd dby leap n r1' True \<open>r2 = 0\<close> show ?thesis
      by (simp add: ymd2ord_def days_in_month_def days_before_month_def
          days_in_month_tab_def days_before_month_tab_def)
  next
    case b4: False
    with b have b3: "b \<le> 3" by simp
    show ?thesis
    proof (cases "e = 4")
      case True
      with r3 r3' r4 have "r4 = 0" by linarith
      from True r2 r2' r3' r4 have c23: "c \<le> 23" by linarith
      from ord True assms(2) have ymd: "y = 400 * a + 100 * b + 4 * c + 4" "m = 12" "d = 31"
        by simp_all
      have y: "y = 400 * a + 100 * b + 4 * c + 3 + 1" using ymd by simp
      have dby: "days_before_year y = 146097 * a + 36524 * b + 1461 * c + 365 * 3"
        unfolding y using b b3 c by (intro days_before_year_decomp) simp_all
      have leap: "is_leap y"
        unfolding y using b b3 c c23 by (subst is_leap_decomp) simp_all
      from a b c ymd dby leap n r1' r2' r3' True \<open>r4 = 0\<close> show ?thesis
        by (simp add: ymd2ord_def days_in_month_def days_before_month_def
            days_in_month_tab_def days_before_month_tab_def)
    next
      case False
      with e have e3: "e \<le> 3" by simp
      define leap where "leap = (e = 3 \<and> (c \<noteq> 24 \<or> b = 3))"
      from ord b4 False assms(2) have y: "y = 400 * a + 100 * b + 4 * c + e + 1"
        and md: "month_day leap r4 = (m, d)"
        by (auto simp: leap_def split: prod.splits)
      have dby: "days_before_year y = 146097 * a + 36524 * b + 1461 * c + 365 * e"
        unfolding y using b b3 c e e3 by (intro days_before_year_decomp) simp_all
      have il: "is_leap y = leap"
        unfolding y leap_def using b b3 c e e3 by (intro is_leap_decomp) simp_all
      from r4 have "r4 < (if leap then 366 else 365)" by simp
      from month_day_ok [OF r4(1) this md]
      have m: "1 \<le> m" "m \<le> 12" and d: "1 \<le> d"
        "d \<le> days_in_month_tab ! nat m + (if m = 2 \<and> leap then 1 else 0)"
        and s: "days_before_month_tab ! nat m + (if m > 2 \<and> leap then 1 else 0) + d = r4 + 1"
        by simp_all
      have dim: "d \<le> days_in_month y m"
        using d(2) by (auto simp: days_in_month_def il days_in_month_tab_def split: if_splits)
      have "ymd2ord y m d = n"
        using s dby n r1' r2' r3' by (simp add: ymd2ord_def days_before_month_def il)
      moreover have "1 \<le> y" using y a b c e by simp
      ultimately show ?thesis using m d(1) dim by simp
    qed
  qed
qed

lemma div_step:
  fixes k y :: int
  assumes "0 < k"
  shows "y div k = (y - 1) div k + (if y mod k = 0 then 1 else 0)"
proof -
  define q where "q = (y - 1) div k"
  define r where "r = (y - 1) mod k"
  have y: "y = k * q + r + 1"
    by (simp add: q_def r_def)
  have r: "0 \<le> r" "r < k"
    using assms by (simp_all add: r_def)
  show ?thesis
  proof (cases "r + 1 = k")
    case True
    then have "y = k * (q + 1) + 0" using y by (simp add: algebra_simps)
    then have "y div k = q + 1" "y mod k = 0"
      using assms by (auto intro: int_div_pos_eq int_mod_pos_eq)
    then show ?thesis by (simp add: q_def)
  next
    case False
    with r have "r + 1 < k" by simp
    moreover have "y = k * q + (r + 1)" using y by simp
    ultimately have "y div k = q" "y mod k = r + 1"
      using r by (auto intro: int_div_pos_eq int_mod_pos_eq)
    with r show ?thesis by (simp add: q_def)
  qed
qed

lemma mod_400_100_4:
  fixes y :: int
  shows "y mod 400 = 0 \<Longrightarrow> y mod 100 = 0" and "y mod 100 = 0 \<Longrightarrow> y mod 4 = 0"
proof -
  assume "y mod 400 = 0"
  then have "400 dvd y" by (simp add: mod_eq_0_iff_dvd)
  moreover have "(100::int) dvd 400" by simp
  ultimately have "100 dvd y" by (rule dvd_trans [rotated])
  then show "y mod 100 = 0" by (simp add: mod_eq_0_iff_dvd)
next
  assume "y mod 100 = 0"
  then have "100 dvd y" by (simp add: mod_eq_0_iff_dvd)
  moreover have "(4::int) dvd 100" by simp
  ultimately have "4 dvd y" by (rule dvd_trans [rotated])
  then show "y mod 4 = 0" by (simp add: mod_eq_0_iff_dvd)
qed

lemma leap_count:
  fixes P4 P100 P400 :: bool
  assumes "P400 \<longrightarrow> P100" and "P100 \<longrightarrow> P4"
  shows "(if P4 \<and> (\<not> P100 \<or> P400) then 366 else 365)
    = 365 + (if P4 then 1 else 0) - (if P100 then 1 else 0) + (if P400 then 1 else (0::int))"
  using assms by (cases P4; cases P100; cases P400) simp_all

lemma days_before_year_step:
  "days_before_year (y + 1) = days_before_year y + (if is_leap y then 366 else 365)"
proof -
  define l4 :: int where "l4 = (if y mod 4 = 0 then 1 else 0)"
  define l100 :: int where "l100 = (if y mod 100 = 0 then 1 else 0)"
  define l400 :: int where "l400 = (if y mod 400 = 0 then 1 else 0)"
  define p4 where "p4 = (y - 1) div 4"
  define p100 where "p100 = (y - 1) div 100"
  define p400 where "p400 = (y - 1) div 400"
  have s: "y div 4 = p4 + l4" "y div 100 = p100 + l100" "y div 400 = p400 + l400"
    unfolding p4_def p100_def p400_def l4_def l100_def l400_def
    by (rule div_step, simp)+
  have "days_before_year (y + 1) = y * 365 + y div 4 - y div 100 + y div 400"
    by (simp add: days_before_year_def)
  also have "\<dots> = y * 365 + (p4 + l4) - (p100 + l100) + (p400 + l400)"
    by (simp only: s)
  finally have a: "days_before_year (y + 1) = y * 365 + (p4 + l4) - (p100 + l100) + (p400 + l400)" .
  have b: "days_before_year y = (y - 1) * 365 + p4 - p100 + p400"
    by (simp add: days_before_year_def Let_def p4_def p100_def p400_def)
  have i1: "y mod 400 = 0 \<longrightarrow> y mod 100 = 0"
    by (rule impI) (rule mod_400_100_4(1))
  have i2: "y mod 100 = 0 \<longrightarrow> y mod 4 = 0"
    by (rule impI) (rule mod_400_100_4(2))
  have c: "(if is_leap y then 366 else 365) = 365 + l4 - l100 + l400"
    unfolding is_leap_def l4_def l100_def l400_def
    by (rule leap_count [OF i1 i2])
  show ?thesis
    unfolding a b c by (simp add: algebra_simps)
qed

lemma days_before_year_mono:
  assumes "y1 \<le> y2"
  shows "days_before_year y1 \<le> days_before_year y2"
  using assms
proof (induction y2 rule: int_ge_induct)
  case base
  show ?case by simp
next
  case (step i)
  then show ?case by (simp add: days_before_year_step)
qed

lemma day_of_year_bounds:
  assumes "1 \<le> m" "m \<le> 12" "1 \<le> d" "d \<le> days_in_month y m"
  shows "1 \<le> days_before_month y m + d"
    and "days_before_month y m + d \<le> (if is_leap y then 366 else 365)"
proof -
  from assms(1,2) have "m = 1 \<or> m = 2 \<or> m = 3 \<or> m = 4 \<or> m = 5 \<or> m = 6 \<or> m = 7 \<or> m = 8
    \<or> m = 9 \<or> m = 10 \<or> m = 11 \<or> m = 12"
    by arith
  with assms(3,4) show "1 \<le> days_before_month y m + d"
    and "days_before_month y m + d \<le> (if is_leap y then 366 else 365)"
    by (auto simp: days_before_month_def days_in_month_def days_before_month_tab_def
        days_in_month_tab_def split: if_splits)
qed

lemma ord2ymd_year_bounds:
  assumes "1 \<le> n" and "ord2ymd n = (y, m, d)"
  shows "n \<le> max_ordinal \<Longrightarrow> y \<le> 9999" and "ymd2ord 1000 1 1 \<le> n \<Longrightarrow> 1000 \<le> y"
proof -
  from ord2ymd_ok [OF assms] have v: "1 \<le> m" "m \<le> 12" "1 \<le> d" "d \<le> days_in_month y m"
    and o: "ymd2ord y m d = n" by simp_all
  from day_of_year_bounds [OF v] o
  have lo: "days_before_year y < n" and hi: "n \<le> days_before_year (y + 1)"
    by (simp_all add: ymd2ord_def days_before_year_step)
  have d10000: "days_before_year 10000 = 3652059"
    by (simp add: days_before_year_def)
  have d1000: "days_before_year 1000 = 364877"
    by (simp add: days_before_year_def)
  show "y \<le> 9999" if "n \<le> max_ordinal"
  proof (rule ccontr)
    assume "\<not> y \<le> 9999"
    then have "days_before_year 10000 \<le> days_before_year y"
      by (intro days_before_year_mono) simp
    with lo that d10000 show False by (simp add: max_ordinal_def)
  qed
  show "1000 \<le> y" if "ymd2ord 1000 1 1 \<le> n"
  proof (rule ccontr)
    assume "\<not> 1000 \<le> y"
    then have "days_before_year (y + 1) \<le> days_before_year 1000"
      by (intro days_before_year_mono) simp
    with hi that d1000 show False
      by (simp add: ymd2ord_def days_before_month_def days_before_month_tab_def)
  qed
qed

lemma digits4:
  fixes k :: nat
  shows "((k div 1000 * 10 + k div 100 mod 10) * 10 + k div 10 mod 10) * 10 + k mod 10 = k"
proof -
  have a: "k div 100 = k div 10 div 10" and b: "k div 1000 = k div 10 div 10 div 10"
    by (simp_all add: div_mult2_eq [symmetric])
  have "k div 10 div 10 div 10 * 10 + k div 10 div 10 mod 10 = k div 10 div 10"
    by simp
  moreover have "k div 10 div 10 * 10 + k div 10 mod 10 = k div 10"
    by simp
  moreover have "k div 10 * 10 + k mod 10 = k"
    by simp
  ultimately show ?thesis
    unfolding a b by simp
qed

lemma str_nat_4_digits:
  assumes "1000 \<le> k" and "k < 10000"
  shows "str_nat k = [48 + k div 1000, 48 + k div 100 mod 10, 48 + k div 10 mod 10, 48 + k mod 10]"
proof -
  have a: "k div 10 div 10 = k div 100" "k div 100 div 10 = k div 1000"
    by (simp_all add: div_mult2_eq [symmetric])
  from assms have "\<not> k < 10" "\<not> k div 10 < 10" "\<not> k div 100 < 10" "k div 1000 < 10"
    by simp_all
  moreover from assms have "k div 1000 mod 10 = k div 1000"
    by simp
  ultimately show ?thesis
    using assms by (simp add: str_nat_def digits_acc_pos a)
qed

lemma int_of_digits_4:
  assumes "a < 10" "b < 10" "c < 10" "d < 10"
  shows "int_of_digits [48 + a, 48 + b, 48 + c, 48 + d] = int (((a * 10 + b) * 10 + c) * 10 + d)"
  by (simp add: int_of_digits_def)

lemma int_of_digits_pad2:
  assumes "0 \<le> n" and "n < 100"
  shows "int_of_digits (pad2 n) = n" and "list_all is_digit (pad2 n)" and "length (pad2 n) = 2"
proof -
  have "int (nat n div 10) * 10 + int (nat n mod 10) = int (nat n)"
    by (simp add: of_nat_div of_nat_mod flip: of_nat_add of_nat_mult)
  with assms show "int_of_digits (pad2 n) = n"
    by (simp add: int_of_digits_def pad2_def)
  from assms have "nat n div 10 \<le> 9" by simp
  then show "list_all is_digit (pad2 n)"
    by (simp add: pad2_def is_digit_def)
  show "length (pad2 n) = 2"
    by (simp add: pad2_def)
qed

lemma int_le_div_iff: "0 < b \<Longrightarrow> (c \<le> a div b) = (c * b \<le> (a::int))"
  using int_div_less_iff [of b a c] by auto

lemma minute_split:
  shows "t div us_per_day = t div us_per_minute div 1440"
    and "t mod us_per_day div us_per_minute = t div us_per_minute mod 1440"
proof -
  show "t div us_per_day = t div us_per_minute div 1440"
    by (simp add: us_per_day_def us_per_minute_def zdiv_zmult2_eq [symmetric])
  have "t mod (us_per_minute * 1440) = us_per_minute * (t div us_per_minute mod 1440) + t mod us_per_minute"
    by (rule zmod_zmult2_eq) simp
  moreover have "0 \<le> t mod us_per_minute" "t mod us_per_minute < us_per_minute"
    by (simp_all add: us_per_minute_def)
  ultimately have "t mod (us_per_minute * 1440) div us_per_minute = t div us_per_minute mod 1440"
    by (simp add: us_per_minute_def)
  then show "t mod us_per_day div us_per_minute = t div us_per_minute mod 1440"
    by (simp add: us_per_day_def us_per_minute_def)
qed

lemma days_in_month_le_31:
  assumes "1 \<le> m" "m \<le> 12"
  shows "days_in_month y m \<le> 31"
proof -
  from assms have "m = 1 \<or> m = 2 \<or> m = 3 \<or> m = 4 \<or> m = 5 \<or> m = 6 \<or> m = 7 \<or> m = 8
    \<or> m = 9 \<or> m = 10 \<or> m = 11 \<or> m = 12"
    by arith
  then show ?thesis
    by (auto simp: days_in_month_def days_in_month_tab_def)
qed

lemma is_digit_48: "is_digit (48 + x) = (x < 10)"
  by (auto simp: is_digit_def)

lemma datetime_of_1000: "datetime_of 1000 1 1 0 0 0 = 364877 * us_per_day"
  by (simp add: datetime_of_def calendar_defs Let_def)

lemma strptime_strftime:
  assumes lo: "datetime_of 1000 1 1 0 0 0 \<le> t" and hi: "t < max_ordinal * us_per_day"
  shows "strptime_YmdHM (strftime_YmdHM t) = Some (t div us_per_minute * us_per_minute)"
    and "length (strftime_YmdHM t) = 12"
    and "list_all is_digit (strftime_YmdHM t)"
proof -
  define n where "n = t div us_per_day + 1"
  define mo where "mo = t mod us_per_day div us_per_minute"
  obtain y m d where ord: "ord2ymd n = (y, m, d)"
    by (cases "ord2ymd n") auto
  have D: "0 < us_per_day" by (simp add: us_per_day_def)
  from lo have "364877 \<le> t div us_per_day"
    by (simp add: int_le_div_iff [OF D] datetime_of_1000)
  then have n_lo: "ymd2ord 1000 1 1 \<le> n" and n1: "1 \<le> n"
    by (simp_all add: n_def calendar_defs)
  from hi have "t div us_per_day < max_ordinal"
    by (simp add: int_div_less_iff [OF D])
  then have n_hi: "n \<le> max_ordinal"
    by (simp add: n_def)
  from ord2ymd_ok [OF n1 ord] have m: "1 \<le> m" "m \<le> 12" and d: "1 \<le> d" "d \<le> days_in_month y m"
    and o: "ymd2ord y m d = n" by simp_all
  from ord2ymd_year_bounds [OF n1 ord] n_lo n_hi have y: "1000 \<le> y" "y \<le> 9999"
    by simp_all
  from d days_in_month_le_31 [OF m, of y] have d31: "d \<le> 31" by simp
  have mo: "0 \<le> mo" "mo < 1440"
    by (simp_all add: mo_def minute_split(2))
  define H where "H = mo div 60"
  define Mi where "Mi = mo mod 60"
  have H: "0 \<le> H" "H < 24" and Mi: "0 \<le> Mi" "Mi < 60"
    using mo by (simp_all add: H_def Mi_def)
  define k where "k = nat y"
  have k: "1000 \<le> k" "k < 10000" "int k = y"
    using y by (simp_all add: k_def)
  define Y4 where "Y4 = [48 + k div 1000, 48 + k div 100 mod 10, 48 + k div 10 mod 10, 48 + k mod 10]"
  have s: "strftime_YmdHM t = Y4 @ pad2 m @ pad2 d @ pad2 H @ pad2 Mi"
    using ord str_nat_4_digits [OF k(1,2)]
    by (simp add: strftime_YmdHM_def n_def [symmetric] mo_def [symmetric] H_def Mi_def k_def Y4_def)
  have l2: "length (pad2 x) = 2" for x
    by (simp add: pad2_def)
  have l4: "length Y4 = 4"
    by (simp add: Y4_def)
  have dg: "k div 1000 < 10" "k div 100 mod 10 < 10" "k div 10 mod 10 < 10" "k mod 10 < 10"
    using k by simp_all
  have Y4_digits: "list_all is_digit Y4"
    using dg by (simp add: Y4_def is_digit_48)
  have Y4_val: "int_of_digits Y4 = y"
    unfolding Y4_def int_of_digits_4 [OF dg] digits4 by (rule k(3))
  have pm: "int_of_digits (pad2 m) = m" "list_all is_digit (pad2 m)"
    using m by (simp_all add: int_of_digits_pad2)
  have pd: "int_of_digits (pad2 d) = d" "list_all is_digit (pad2 d)"
    using d d31 by (simp_all add: int_of_digits_pad2)
  have pH: "int_of_digits (pad2 H) = H" "list_all is_digit (pad2 H)"
    using H by (simp_all add: int_of_digits_pad2)
  have pM: "int_of_digits (pad2 Mi) = Mi" "list_all is_digit (pad2 Mi)"
    using Mi by (simp_all add: int_of_digits_pad2)
  show len: "length (strftime_YmdHM t) = 12"
    by (simp add: s l2 l4)
  show dig: "list_all is_digit (strftime_YmdHM t)"
    by (simp add: s Y4_digits pm pd pH pM)
  have parts: "take 4 (strftime_YmdHM t) = Y4"
    "take 2 (drop 4 (strftime_YmdHM t)) = pad2 m"
    "take 2 (drop 6 (strftime_YmdHM t)) = pad2 d"
    "take 2 (drop 8 (strftime_YmdHM t)) = pad2 H"
    "take 2 (drop 10 (strftime_YmdHM t)) = pad2 Mi"
    by (simp_all add: s l2 l4)
  have "datetime_of y m d H Mi 0 = (t div us_per_day) * us_per_day + mo * us_per_minute"
    by (simp add: datetime_of_def o n_def H_def Mi_def)
  also have "\<dots> = (t div us_per_minute div 1440) * (1440 * us_per_minute)
      + (t div us_per_minute mod 1440) * us_per_minute"
    by (simp add: mo_def minute_split) (simp add: us_per_day_def us_per_minute_def)
  also have "\<dots> = t div us_per_minute * us_per_minute"
  proof -
    define q where "q = t div us_per_minute"
    define A where "A = q div 1440"
    define B where "B = q mod 1440"
    have "q = A * 1440 + B" by (simp add: A_def B_def)
    then have "A * (1440 * us_per_minute) + B * us_per_minute = q * us_per_minute"
      by (simp add: algebra_simps)
    then show ?thesis by (simp add: q_def A_def B_def)
  qed
  finally have val: "datetime_of y m d H Mi 0 = t div us_per_minute * us_per_minute" .
  show "strptime_YmdHM (strftime_YmdHM t) = Some (t div us_per_minute * us_per_minute)"
    using y m d H Mi
    by (simp add: strptime_YmdHM_def len dig parts Y4_val pm pd pH pM val)
qed

section \<open>Decoding what was encoded\<close>

lemma b64_index_char_all:
  "list_all (\<lambda>i. b64_index (unat (b64_char i)) = Some i) [0 ..< 64]"
  by code_simp

lemma b64_index_char: "i < 64 \<Longrightarrow> b64_index (unat (b64_char i)) = Some i"
  using b64_index_char_all by (simp add: list_all_iff)

lemma b64_char_not_pad: "i < 64 \<Longrightarrow> unat (b64_char i) \<noteq> 61"
proof
  assume "i < 64" and "unat (b64_char i) = 61"
  with b64_index_char [of i] have "b64_index 61 = Some i" by simp
  then show False by (simp add: b64_index_def)
qed

lemma sextets:
  assumes "n < 16777216"
  shows "((sextet n 3 * 64 + sextet n 2) * 64 + sextet n 1) * 64 + sextet n 0 = n"
proof -
  define q1 where "q1 = n div 64"
  define q2 where "q2 = q1 div 64"
  define q3 where "q3 = q2 div 64"
  have a: "n div 4096 = q2" and b: "n div 262144 = q3"
    by (simp_all add: q1_def q2_def q3_def div_mult2_eq [symmetric])
  from assms have "n div 262144 < 64" by simp
  then have c: "q3 mod 64 = q3" by (simp add: b)
  have s: "sextet n 3 = q3" "sextet n 2 = q2 mod 64" "sextet n 1 = q1 mod 64" "sextet n 0 = n mod 64"
    by (simp_all add: sextet_def a b c q1_def [symmetric])
  have "q3 * 64 + q2 mod 64 = q2" "q2 * 64 + q1 mod 64 = q1" "q1 * 64 + n mod 64 = n"
    by (simp_all add: q1_def q2_def q3_def)
  then show ?thesis
    by (simp only: s)
qed

lemma group3:
  assumes "x < 256" "y < 256" "z < 256" and n: "n = x * 65536 + y * 256 + z"
  shows "(((sextet n 3 * 64 + sextet n 2) * 64 + sextet n 1) * 64 + sextet n 0) div 65536 = x"
    and "(((sextet n 3 * 64 + sextet n 2) * 64 + sextet n 1) * 64 + sextet n 0) div 256 mod 256 = y"
    and "(((sextet n 3 * 64 + sextet n 2) * 64 + sextet n 1) * 64 + sextet n 0) mod 256 = z"
proof -
  from assms have "n < 16777216" by simp
  from sextets [OF this]
  have e: "((sextet n 3 * 64 + sextet n 2) * 64 + sextet n 1) * 64 + sextet n 0 = n" .
  define w where "w = x * 256 + y"
  have n': "n = w * 256 + z" by (simp add: n w_def)
  have d: "n div 256 = w" and m: "n mod 256 = z"
    unfolding n' using assms(3) by simp_all
  have w: "w div 256 = x" "w mod 256 = y"
    unfolding w_def using assms(2) by simp_all
  have "n div 65536 = n div 256 div 256"
    by (simp add: div_mult2_eq [symmetric])
  with d w have "n div 65536 = x" by simp
  moreover from d w have "n div 256 mod 256 = y" by simp
  ultimately show "(((sextet n 3 * 64 + sextet n 2) * 64 + sextet n 1) * 64 + sextet n 0) div 65536 = x"
    and "(((sextet n 3 * 64 + sextet n 2) * 64 + sextet n 1) * 64 + sextet n 0) div 256 mod 256 = y"
    and "(((sextet n 3 * 64 + sextet n 2) * 64 + sextet n 1) * 64 + sextet n 0) mod 256 = z"
    unfolding e using m by simp_all
qed

lemma group2:
  assumes "x < 256" "y < 256" and n: "n = x * 65536 + y * 256"
  shows "((sextet n 3 * 64 + sextet n 2) * 64 + sextet n 1) div 1024 = x"
    and "((sextet n 3 * 64 + sextet n 2) * 64 + sextet n 1) div 4 mod 256 = y"
proof -
  from assms have "n < 16777216" by simp
  from sextets [OF this]
  have e: "((sextet n 3 * 64 + sextet n 2) * 64 + sextet n 1) * 64 + sextet n 0 = n" .
  have "sextet n 0 = 0" by (simp add: sextet_def n)
  with e have "((sextet n 3 * 64 + sextet n 2) * 64 + sextet n 1) * 64 = (x * 1024 + y * 4) * 64"
    by (simp add: n)
  then have m: "(sextet n 3 * 64 + sextet n 2) * 64 + sextet n 1 = x * 1024 + y * 4"
    by simp
  from assms show "((sextet n 3 * 64 + sextet n 2) * 64 + sextet n 1) div 1024 = x"
    and "((sextet n 3 * 64 + sextet n 2) * 64 + sextet n 1) div 4 mod 256 = y"
    unfolding m by simp_all
qed

lemma group1:
  assumes "x < 256" and n: "n = x * 65536"
  shows "(sextet n 3 * 64 + sextet n 2) div 16 = x"
proof -
  from assms have "n < 16777216" by simp
  from sextets [OF this]
  have e: "((sextet n 3 * 64 + sextet n 2) * 64 + sextet n 1) * 64 + sextet n 0 = n" .
  have "sextet n 0 = 0" "sextet n 1 = 0" by (simp_all add: sextet_def n)
  with e have "(sextet n 3 * 64 + sextet n 2) * 4096 = (x * 16) * 4096"
    by (simp add: n)
  then have "sextet n 3 * 64 + sextet n 2 = x * 16"
    by simp
  then show ?thesis by simp
qed

lemma urlsafe_b64decode_encode:
  "urlsafe_b64decode (map unat (urlsafe_b64encode bs)) = Some bs"
proof (induction bs rule: urlsafe_b64encode.induct)
  case 1
  show ?case by simp
next
  case (2 a)
  show ?case
    using group1 [OF unat_byte_lt [of a] refl]
    by (simp add: Let_def b64_index_char b64_char_not_pad sextet_lt)
next
  case (3 a b)
  show ?case
    using group2 [OF unat_byte_lt [of a] unat_byte_lt [of b] refl]
    by (simp add: Let_def b64_index_char b64_char_not_pad sextet_lt)
next
  case (4 a b c rest)
  show ?case
    using group3 [OF unat_byte_lt [of a] unat_byte_lt [of b] unat_byte_lt [of c] refl] 4
    by (simp add: Let_def b64_index_char b64_char_not_pad sextet_lt)
qed

lemma unat_of_nat_byte: "v < 256 \<Longrightarrow> unat (of_nat v :: byte) = v"
  by (simp add: unsigned_of_nat take_bit_nat_eq_self)

lemma decode_utf8_char:
  assumes "utf8_char c = Inr bs"
  shows "decode_utf8 (bs @ rest) = map_option ((#) c) (decode_utf8 rest)"
proof -
  consider "c < 0x80" | "0x80 \<le> c" "c < 0x800" | "0x800 \<le> c" "c < 0x10000" | "0x10000 \<le> c"
    by linarith
  then show ?thesis
  proof cases
    case 1
    with assms have "bs = [of_nat c]" by (simp add: utf8_char_def)
    with 1 show ?thesis by (simp add: unat_of_nat_byte)
  next
    case 2
    define p where "p = c div 64"
    define r where "r = c mod 64"
    from 2 assms have bs: "bs = [of_nat (0xC0 + p), of_nat (0x80 + r)]"
      by (simp add: utf8_char_def p_def r_def)
    from 2 have d: "2 \<le> p" "p < 32" "r < 64" by (simp_all add: p_def r_def)
    then have u: "unat (of_nat (0xC0 + p) :: byte) = 0xC0 + p"
      "unat (of_nat (0x80 + r) :: byte) = 0x80 + r"
      by (simp_all add: unat_of_nat_byte del: of_nat_add)
    have e: "p * 64 + r = c" by (simp add: p_def r_def)
    from d e show ?thesis
      by (simp add: bs u is_cont_def del: of_nat_add)
  next
    case 3
    define p where "p = c div 4096"
    define q where "q = c div 64 mod 64"
    define r where "r = c mod 64"
    from 3 assms have ns: "c < 0xD800 \<or> 0xE000 \<le> c"
      and bs: "bs = [of_nat (0xE0 + p), of_nat (0x80 + q), of_nat (0x80 + r)]"
      by (auto simp: utf8_char_def p_def q_def r_def split: if_splits)
    from 3 have d: "p < 16" "q < 64" "r < 64" by (simp_all add: p_def q_def r_def)
    then have u: "unat (of_nat (0xE0 + p) :: byte) = 0xE0 + p"
      "unat (of_nat (0x80 + q) :: byte) = 0x80 + q"
      "unat (of_nat (0x80 + r) :: byte) = 0x80 + r"
      by (simp_all add: unat_of_nat_byte del: of_nat_add)
    have "c div 4096 = c div 64 div 64" by (simp add: div_mult2_eq [symmetric])
    moreover have "c div 64 div 64 * 64 + c div 64 mod 64 = c div 64" by simp
    moreover have "c div 64 * 64 + c mod 64 = c" by simp
    ultimately have e: "(p * 64 + q) * 64 + r = c" by (simp add: p_def q_def r_def)
    have "decode_utf8 (bs @ rest)
        = (let c' = (p * 64 + q) * 64 + r
           in if 0x800 \<le> c' \<and> (c' < 0xD800 \<or> 0xE000 \<le> c')
              then map_option ((#) c') (decode_utf8 rest) else None)"
      using d by (simp add: bs u is_cont_def del: of_nat_add)
    with 3 ns show ?thesis
      unfolding e by (simp add: Let_def)
  next
    case 4
    define o' where "o' = c div 262144"
    define p where "p = c div 4096 mod 64"
    define q where "q = c div 64 mod 64"
    define r where "r = c mod 64"
    from 4 assms have lt: "c < 0x110000"
      and bs: "bs = [of_nat (0xF0 + o'), of_nat (0x80 + p), of_nat (0x80 + q), of_nat (0x80 + r)]"
      by (auto simp: utf8_char_def o'_def p_def q_def r_def split: if_splits)
    from lt have d: "o' < 5" "p < 64" "q < 64" "r < 64" by (simp_all add: o'_def p_def q_def r_def)
    then have u: "unat (of_nat (0xF0 + o') :: byte) = 0xF0 + o'"
      "unat (of_nat (0x80 + p) :: byte) = 0x80 + p"
      "unat (of_nat (0x80 + q) :: byte) = 0x80 + q"
      "unat (of_nat (0x80 + r) :: byte) = 0x80 + r"
      by (simp_all add: unat_of_nat_byte del: of_nat_add)
    have "c div 4096 = c div 64 div 64" "c div 262144 = c div 64 div 64 div 64"
      by (simp_all add: div_mult2_eq [symmetric])
    moreover have "c div 64 div 64 div 64 * 64 + c div 64 div 64 mod 64 = c div 64 div 64" by simp
    moreover have "c div 64 div 64 * 64 + c div 64 mod 64 = c div 64" by simp
    moreover have "c div 64 * 64 + c mod 64 = c" by simp
    ultimately have e: "((o' * 64 + p) * 64 + q) * 64 + r = c"
      by (simp add: o'_def p_def q_def r_def)
    have "decode_utf8 (bs @ rest)
        = (let c' = ((o' * 64 + p) * 64 + q) * 64 + r
           in if 0x10000 \<le> c' \<and> c' < 0x110000
              then map_option ((#) c') (decode_utf8 rest) else None)"
      using d by (simp add: bs u is_cont_def del: of_nat_add)
    with 4 lt show ?thesis
      unfolding e by (simp add: Let_def)
  qed
qed

lemma decode_utf8_encode:
  "encode_utf8 s = Inr bs \<Longrightarrow> decode_utf8 bs = Some s"
proof (induction s arbitrary: bs)
  case Nil
  then show ?case by simp
next
  case (Cons c s)
  then obtain a b where a: "utf8_char c = Inr a" and b: "encode_utf8 s = Inr b" and bs: "bs = a @ b"
    by (auto split: sum.splits)
  from Cons.IH [OF b] decode_utf8_char [OF a, of b] bs show ?case
    by simp
qed

lemma split_on_no_sep: "sep \<notin> set xs \<Longrightarrow> split_on sep xs = [xs]"
  by (induction xs) auto

lemma split_on_two:
  "sep \<notin> set xs \<Longrightarrow> sep \<notin> set ys \<Longrightarrow> split_on sep (xs @ sep # ys) = [xs, ys]"
  by (induction xs) (auto simp: split_on_no_sep)


section \<open>Issuing and verifying\<close>

lemma hmacVerify_issued:
  assumes "hmacSign cnf (PyBytes bs) = Inr sg" and "list_all (\<lambda>b. unat b < 128) bs"
  shows "hmacVerify cnf (PyOther (PyStr (map unat bs))) sg = Inr True"
  using assms hmacSign_is_ascii [OF assms(1)]
  by (simp add: hmacVerify_def hmacSign_ascii_str compare_digest_def)

lemma b64_char_not_question: "i < 64 \<Longrightarrow> unat (b64_char i) \<noteq> 63"
proof
  assume "i < 64" and "unat (b64_char i) = 63"
  with b64_index_char [of i] have "b64_index 63 = Some i" by simp
  then show False by (simp add: b64_index_def)
qed

lemma urlsafe_b64encode_no_question: "63 \<notin> set (map unat (urlsafe_b64encode bs))"
  by (induction bs rule: urlsafe_b64encode.induct)
     (simp_all add: Let_def b64_char_not_question sextet_lt)

lemma takeWhile_until: "x \<notin> set xs \<Longrightarrow> takeWhile (\<lambda>c. c \<noteq> x) (xs @ x # ys) = xs"
  by (induction xs) auto

lemma dropWhile_until: "x \<notin> set xs \<Longrightarrow> dropWhile (\<lambda>c. c \<noteq> x) (xs @ x # ys) = x # ys"
  by (induction xs) auto

lemma parse_url_issued:
  "parse_url (py ''/file/download/'' @ map unat (urlsafe_b64encode raw) @ py ''?sig='' @ sg)
     = Some (map unat (urlsafe_b64encode raw), sg)"
proof -
  have q: "py ''?sig='' @ sg = 63 # py ''sig='' @ sg"
    by (simp add: py_def)
  show ?thesis
    unfolding parse_url_def Let_def q
    using urlsafe_b64encode_no_question [of raw]
    by (simp add: takeWhile_until dropWhile_until py_def)
qed

lemma digits_acc_ge_48:
  "\<forall>c\<in>set acc. 48 \<le> c \<Longrightarrow> \<forall>c\<in>set (digits_acc fuel n acc). 48 \<le> c"
  by (induction fuel n acc rule: digits_acc.induct) auto

lemma strftime_no_nul: "0 \<notin> set (strftime_YmdHM t)"
proof -
  have "\<forall>c\<in>set (str_nat k). 48 \<le> c" for k
    unfolding str_nat_def by (rule digits_acc_ge_48) simp
  moreover have "\<forall>c\<in>set (pad2 x). 48 \<le> c" for x
    by (simp add: pad2_def)
  ultimately have "\<forall>c\<in>set (strftime_YmdHM t). 48 \<le> c"
    by (auto simp: strftime_YmdHM_def Let_def split: prod.splits)
  then show ?thesis by auto
qed

lemma expiry_stamp_no_nul: "expiry_stamp now expires = Inr stamp \<Longrightarrow> 0 \<notin> set stamp"
  using strftime_no_nul
  by (auto simp: expiry_stamp_def str_int_0 py_def split: option.splits if_splits sum.splits)

lemma filePath_no_nul:
  "0 \<notin> set folder \<Longrightarrow> 0 \<notin> set fileName \<Longrightarrow> 0 \<notin> set (filePath_of folder fileName derived)"
  by (simp add: filePath_of_def py_def)

lemma verify_issued_payload:
  assumes st: "expiry_stamp now expires = Inr stamp"
    and raw: "encode_utf8 (filePath_of folder fileName derived @ 0 # stamp) = Inr raw"
    and sg: "hmacSign cnf (PyBytes (urlsafe_b64encode raw)) = Inr sg"
  shows "verifyDownloadURL cnf vnow (map unat (urlsafe_b64encode raw)) sg =
       (case split_on 0 (filePath_of folder fileName derived @ 0 # stamp) of
          [path, expiryStamp] \<Rightarrow>
            if expiryStamp = py ''0'' then Inr (valid_result path)
            else (case strptime_YmdHM expiryStamp of
                    None \<Rightarrow> Inr invalid_result
                  | Some t \<Rightarrow>
                      if vnow div us_per_minute \<le> t div us_per_minute
                      then Inr (valid_result path)
                      else Inr invalid_result)
        | _ \<Rightarrow> Inr invalid_result)"
proof -
  have v: "hmacVerify cnf (PyOther (PyStr (map unat (urlsafe_b64encode raw)))) sg = Inr True"
    using sg urlsafe_b64encode_ascii by (rule hmacVerify_issued)
  have d: "decode_utf8 raw = Some (filePath_of folder fileName derived @ 0 # stamp)"
    using raw by (rule decode_utf8_encode)
  show ?thesis
    by (simp add: verifyDownloadURL_def v urlsafe_b64decode_encode d)
qed

lemma verify_issued:
  assumes iss: "downloadUrlFor cnf now folder fileName derived expires = Inr url"
    and nul: "0 \<notin> set folder" "0 \<notin> set fileName"
  shows "\<exists>p sg stamp.
     parse_url url = Some (p, sg) \<and> expiry_stamp now expires = Inr stamp \<and>
     (\<forall>vnow. verifyDownloadURL cnf vnow p sg =
       (if stamp = py ''0'' then Inr (valid_result (filePath_of folder fileName derived))
        else (case strptime_YmdHM stamp of
                None \<Rightarrow> Inr invalid_result
              | Some t \<Rightarrow>
                  if vnow div us_per_minute \<le> t div us_per_minute
                  then Inr (valid_result (filePath_of folder fileName derived))
                  else Inr invalid_result)))"
proof -
  from iss obtain stamp raw sg where st: "expiry_stamp now expires = Inr stamp"
    and raw: "encode_utf8 (filePath_of folder fileName derived @ [0] @ stamp) = Inr raw"
    and sg: "hmacSign cnf (PyBytes (urlsafe_b64encode raw)) = Inr sg"
    and url: "url = py ''/file/download/'' @ map unat (urlsafe_b64encode raw) @ py ''?sig='' @ sg"
    unfolding downloadUrlFor_Inr_iff by blast
  from raw have raw': "encode_utf8 (filePath_of folder fileName derived @ 0 # stamp) = Inr raw"
    by simp
  have sp: "split_on 0 (filePath_of folder fileName derived @ 0 # stamp)
      = [filePath_of folder fileName derived, stamp]"
    using filePath_no_nul [OF nul] expiry_stamp_no_nul [OF st] by (rule split_on_two)
  have "verifyDownloadURL cnf vnow (map unat (urlsafe_b64encode raw)) sg =
       (if stamp = py ''0'' then Inr (valid_result (filePath_of folder fileName derived))
        else (case strptime_YmdHM stamp of
                None \<Rightarrow> Inr invalid_result
              | Some t \<Rightarrow>
                  if vnow div us_per_minute \<le> t div us_per_minute
                  then Inr (valid_result (filePath_of folder fileName derived))
                  else Inr invalid_result))" for vnow
    unfolding verify_issued_payload [OF st raw' sg] sp by simp
  with st parse_url_issued [of raw sg] url show ?thesis
    by blast
qed

text \<open>
  C1 (as amended). Let \<open>downloadUrlFor\<close> return a URL for a folder and a file name
  without a NUL character and for \<open>expires\<close> that is \<open>None\<close> or not negative, at a
  reading of the clock in the year 1000 or later. Then the URL parses into an encoded path
  and a signature, and verifying them at the same reading of the clock gives "valid" with
  the file path that was issued.
\<close>

theorem verify_after_issue:
  assumes iss: "downloadUrlFor cnf now folder fileName derived expires = Inr url"
    and nul: "0 \<notin> set folder" "0 \<notin> set fileName"
    and ttl: "expires = None \<or> (\<exists>d. expires = Some d \<and> 0 \<le> d)"
    and clock: "datetime_of 1000 1 1 0 0 0 \<le> now"
  shows "\<exists>p sg. parse_url url = Some (p, sg) \<and>
           verifyDownloadURL cnf now p sg = Inr (valid_result (filePath_of folder fileName derived))"
proof -
  from verify_issued [OF iss nul] obtain p sg stamp
    where p: "parse_url url = Some (p, sg)" and st: "expiry_stamp now expires = Inr stamp"
      and v: "verifyDownloadURL cnf now p sg =
       (if stamp = py ''0'' then Inr (valid_result (filePath_of folder fileName derived))
        else (case strptime_YmdHM stamp of
                None \<Rightarrow> Inr invalid_result
              | Some t \<Rightarrow>
                  if now div us_per_minute \<le> t div us_per_minute
                  then Inr (valid_result (filePath_of folder fileName derived))
                  else Inr invalid_result))"
    by blast
  have "verifyDownloadURL cnf now p sg = Inr (valid_result (filePath_of folder fileName derived))"
  proof (cases "stamp = py ''0''")
    case True
    with v show ?thesis by simp
  next
    case False
    with st obtain d where d: "expires = Some d" and s: "stamp = strftime_YmdHM (now + d)"
      and hi: "now + d < max_ordinal * us_per_day"
      by (auto simp: expiry_stamp_def str_int_0 datetime_add_def Let_def
          split: option.splits if_splits)
    from d ttl have "0 \<le> d" by simp
    with clock have lo: "datetime_of 1000 1 1 0 0 0 \<le> now + d" by simp
    have "now div us_per_minute \<le> (now + d) div us_per_minute"
      using \<open>0 \<le> d\<close> by (intro zdiv_mono1) (simp_all add: us_per_minute_def)
    then have "now div us_per_minute \<le> (now + d) div us_per_minute * us_per_minute div us_per_minute"
      by (simp add: us_per_minute_def)
    with v False show ?thesis
      by (simp add: s strptime_strftime(1) [OF lo hi])
  qed
  with p show ?thesis by blast
qed

lemma payload_b64_text:
  "map unat (urlsafe_b64encode (pyb ''abc/source/img.png'' @ 0 # pyb ''202401010100''))
     = py ''YWJjL3NvdXJjZS9pbWcucG5nADIwMjQwMTAxMDEwMA==''"
  by (simp add: b64_payload) (simp add: py_def pyb_def)

lemma hmacSign_payload:
  "hmacSign \<lparr>viur_file_hmacKey = Some (pyb ''testkey'')\<rparr>
       (PyBytes (urlsafe_b64encode (pyb ''abc/source/img.png'' @ 0 # pyb ''202401010100'')))
     = Inr (hexdigest (hmac_sha3_384 (pyb ''testkey'')
         (pyb ''YWJjL3NvdXJjZS9pbWcucG5nADIwMjQwMTAxMDEwMA=='')))"
  by (simp add: hmacSign_def b64_payload)

lemma strptime_202401010100:
  "strptime_YmdHM (py ''202401010100'') = Some (datetime_of 2024 1 1 1 0 0)"
  by (simp add: strptime_YmdHM_def py_def is_digit_def int_of_digits_def Let_def
      days_in_month_def days_in_month_tab_def)

lemma split_payload:
  "split_on 0 (py ''abc/source/img.png'' @ 0 # py ''202401010100'')
     = [py ''abc/source/img.png'', py ''202401010100'']"
  by (rule split_on_two) (simp_all add: py_def)

lemma minutes_2024:
  "datetime_of 2024 1 1 0 30 0 div us_per_minute \<le> datetime_of 2024 1 1 1 0 0 div us_per_minute"
  "\<not> datetime_of 2024 1 1 2 0 0 div us_per_minute \<le> datetime_of 2024 1 1 1 0 0 div us_per_minute"
  by (simp_all add: datetime_of_def calendar_defs Let_def)

text \<open>
  C9. Under the key \<open>testkey\<close>, the URL issued at 2024-01-01T00:00 for an hour, for
  the file \<open>img.png\<close> of the folder \<open>abc\<close> and \<open>derived = False\<close>, parses into
  the encoded path and the signature; the encoded path decodes to the file path
  \<open>abc/source/img.png\<close> and the stamp \<open>202401010100\<close>; verifying at 00:30 gives
  "valid" with that path, and verifying at 02:00 gives "invalid".
\<close>

theorem scenario_testkey_abc_img_png:
  "downloadUrlFor \<lparr>viur_file_hmacKey = Some (pyb ''testkey'')\<rparr> (datetime_of 2024 1 1 0 0 0)
       (py ''abc'') (py ''img.png'') False (Some (timedelta_of 0 0 60 0))
     = Inr (py ''/file/download/'' @ py ''YWJjL3NvdXJjZS9pbWcucG5nADIwMjQwMTAxMDEwMA=='' @ py ''?sig=''
            @ hexdigest (hmac_sha3_384 (pyb ''testkey'')
                (pyb ''YWJjL3NvdXJjZS9pbWcucG5nADIwMjQwMTAxMDEwMA==''))) \<and>
   parse_url (py ''/file/download/'' @ py ''YWJjL3NvdXJjZS9pbWcucG5nADIwMjQwMTAxMDEwMA=='' @ py ''?sig=''
            @ hexdigest (hmac_sha3_384 (pyb ''testkey'')
                (pyb ''YWJjL3NvdXJjZS9pbWcucG5nADIwMjQwMTAxMDEwMA=='')))
     = Some (py ''YWJjL3NvdXJjZS9pbWcucG5nADIwMjQwMTAxMDEwMA=='',
             hexdigest (hmac_sha3_384 (pyb ''testkey'')
                (pyb ''YWJjL3NvdXJjZS9pbWcucG5nADIwMjQwMTAxMDEwMA==''))) \<and>
   (case urlsafe_b64decode (py ''YWJjL3NvdXJjZS9pbWcucG5nADIwMjQwMTAxMDEwMA=='') of
      None \<Rightarrow> None
    | Some raw \<Rightarrow> map_option (split_on 0) (decode_utf8 raw))
     = Some [py ''abc/source/img.png'', py ''202401010100''] \<and>
   verifyDownloadURL \<lparr>viur_file_hmacKey = Some (pyb ''testkey'')\<rparr> (datetime_of 2024 1 1 0 30 0)
       (py ''YWJjL3NvdXJjZS9pbWcucG5nADIwMjQwMTAxMDEwMA=='')
       (hexdigest (hmac_sha3_384 (pyb ''testkey'')
                (pyb ''YWJjL3NvdXJjZS9pbWcucG5nADIwMjQwMTAxMDEwMA==''))) 
     = Inr \<lparr>valid = True, filePath = Some (py ''abc/source/img.png'')\<rparr> \<and>
   verifyDownloadURL \<lparr>viur_file_hmacKey = Some (pyb ''testkey'')\<rparr> (datetime_of 2024 1 1 2 0 0)
       (py ''YWJjL3NvdXJjZS9pbWcucG5nADIwMjQwMTAxMDEwMA=='')
       (hexdigest (hmac_sha3_384 (pyb ''testkey'')
                (pyb ''YWJjL3NvdXJjZS9pbWcucG5nADIwMjQwMTAxMDEwMA==''))) 
     = Inr \<lparr>valid = False, filePath = None\<rparr>"
proof -
  let ?c = "\<lparr>viur_file_hmacKey = Some (pyb ''testkey'')\<rparr>"
  let ?raw = "pyb ''abc/source/img.png'' @ 0 # pyb ''202401010100''"
  let ?P = "py ''YWJjL3NvdXJjZS9pbWcucG5nADIwMjQwMTAxMDEwMA==''"
  let ?S = "hexdigest (hmac_sha3_384 (pyb ''testkey'')
                (pyb ''YWJjL3NvdXJjZS9pbWcucG5nADIwMjQwMTAxMDEwMA==''))"
  have raw: "encode_utf8 (filePath_of (py ''abc'') (py ''img.png'') False @ 0 # py ''202401010100'')
      = Inr ?raw"
    by (simp add: filePath_abc payload_bytes)
  have ne: "py ''202401010100'' \<noteq> py ''0''"
    by (simp add: py_def)
  have v: "verifyDownloadURL ?c vnow ?P ?S =
      (if vnow div us_per_minute \<le> datetime_of 2024 1 1 1 0 0 div us_per_minute
       then Inr (valid_result (py ''abc/source/img.png'')) else Inr invalid_result)" for vnow
    using verify_issued_payload [OF expiry_stamp_2024_60min raw hmacSign_payload, of vnow]
    by (simp add: payload_b64_text filePath_abc split_payload ne strptime_202401010100)
  have p: "parse_url (py ''/file/download/'' @ ?P @ py ''?sig='' @ ?S) = Some (?P, ?S)"
    using parse_url_issued [of ?raw ?S] by (simp add: payload_b64_text)
  have d: "(case urlsafe_b64decode ?P of None \<Rightarrow> None
            | Some raw \<Rightarrow> map_option (split_on 0) (decode_utf8 raw))
      = Some [py ''abc/source/img.png'', py ''202401010100'']"
    using urlsafe_b64decode_encode [of ?raw] decode_utf8_encode [OF payload_bytes]
    by (simp add: payload_b64_text split_payload)
  show ?thesis
    by (intro conjI downloadUrlFor_scenario p d)
       (simp_all add: v minutes_2024 valid_result_def invalid_result_def)
qed

lemma nul_stamp: "expiry_stamp now None = Inr (py ''0'')"
  by (simp add: expiry_stamp_def str_int_0)

lemma nul_raw:
  "encode_utf8 (filePath_of [97, 0, 98] (py ''f'') False @ 0 # py ''0'')
     = Inr ([97, 0, 98] @ pyb ''/source/f'' @ 0 # pyb ''0'')"
  by (simp add: filePath_of_def py_def pyb_def utf8_char_def)

lemmas b64_eval = pyb_def py_def b64_char_def b64_alphabet_def sextet_def

lemma nul_sign:
  "hmacSign \<lparr>viur_file_hmacKey = Some (pyb ''testkey'')\<rparr>
       (PyBytes (urlsafe_b64encode ([97, 0, 98] @ pyb ''/source/f'' @ 0 # pyb ''0'')))
     = Inr (hexdigest (hmac_sha3_384 (pyb ''testkey'') (pyb ''YQBiL3NvdXJjZS9mADA='')))"
  by (simp add: hmacSign_def b64_eval)

lemma nul_split:
  "split_on 0 (filePath_of [97, 0, 98] (py ''f'') False @ 0 # py ''0'')
     = [[97], py ''b/source/f'', py ''0'']"
  by (simp add: filePath_of_def py_def)

text \<open>
  C1 as stated fails: for the folder \<open>a\0b\<close> the payload has three parts between
  NUL characters, and the token that \<open>downloadUrlFor\<close> returns is invalid at the very
  time of its issue.
\<close>

theorem verify_after_issue_nul_counterexample:
  "downloadUrlFor \<lparr>viur_file_hmacKey = Some (pyb ''testkey'')\<rparr> (datetime_of 2024 1 1 0 0 0)
       [97, 0, 98] (py ''f'') False None
     = Inr (py ''/file/download/'' @ py ''YQBiL3NvdXJjZS9mADA='' @ py ''?sig=''
            @ hexdigest (hmac_sha3_384 (pyb ''testkey'') (pyb ''YQBiL3NvdXJjZS9mADA=''))) \<and>
   parse_url (py ''/file/download/'' @ py ''YQBiL3NvdXJjZS9mADA='' @ py ''?sig=''
            @ hexdigest (hmac_sha3_384 (pyb ''testkey'') (pyb ''YQBiL3NvdXJjZS9mADA='')))
     = Some (py ''YQBiL3NvdXJjZS9mADA='',
             hexdigest (hmac_sha3_384 (pyb ''testkey'') (pyb ''YQBiL3NvdXJjZS9mADA=''))) \<and>
   verifyDownloadURL \<lparr>viur_file_hmacKey = Some (pyb ''testkey'')\<rparr> (datetime_of 2024 1 1 0 0 0)
       (py ''YQBiL3NvdXJjZS9mADA='')
       (hexdigest (hmac_sha3_384 (pyb ''testkey'') (pyb ''YQBiL3NvdXJjZS9mADA='')))
     = Inr \<lparr>valid = False, filePath = None\<rparr>"
proof -
  let ?raw = "[97, 0, 98] @ pyb ''/source/f'' @ 0 # pyb ''0''"
  let ?S = "hexdigest (hmac_sha3_384 (pyb ''testkey'') (pyb ''YQBiL3NvdXJjZS9mADA=''))"
  have u: "downloadUrlFor \<lparr>viur_file_hmacKey = Some (pyb ''testkey'')\<rparr> (datetime_of 2024 1 1 0 0 0)
       [97, 0, 98] (py ''f'') False None
     = Inr (py ''/file/download/'' @ py ''YQBiL3NvdXJjZS9mADA='' @ py ''?sig='' @ ?S)"
    by (simp add: downloadUrlFor_eq nul_stamp nul_raw [simplified] nul_sign [simplified])
       (simp add: b64_eval)
  have p: "parse_url (py ''/file/download/'' @ py ''YQBiL3NvdXJjZS9mADA='' @ py ''?sig='' @ ?S)
     = Some (py ''YQBiL3NvdXJjZS9mADA='', ?S)"
    using parse_url_issued [of ?raw ?S] by (simp add: b64_eval)
  have v: "verifyDownloadURL \<lparr>viur_file_hmacKey = Some (pyb ''testkey'')\<rparr> (datetime_of 2024 1 1 0 0 0)
       (py ''YQBiL3NvdXJjZS9mADA='') ?S = Inr \<lparr>valid = False, filePath = None\<rparr>"
    using verify_issued_payload [OF nul_stamp nul_raw nul_sign, of "datetime_of 2024 1 1 0 0 0"]
    by (simp add: nul_split invalid_result_def) (simp add: b64_eval)
  show ?thesis
    by (intro conjI u p v)
qed

text \<open>
  The amended statement for the folder \<open>abc\<close> and the file \<open>img.png\<close>, issued for
  an hour at 2024-01-01T00:00 under the key \<open>testkey\<close>.
\<close>

theorem verify_after_issue_witness:
  "downloadUrlFor \<lparr>viur_file_hmacKey = Some (pyb ''testkey'')\<rparr> (datetime_of 2024 1 1 0 0 0)
       (py ''abc'') (py ''img.png'') False (Some (timedelta_of 0 0 60 0))
     = Inr (py ''/file/download/'' @ py ''YWJjL3NvdXJjZS9pbWcucG5nADIwMjQwMTAxMDEwMA=='' @ py ''?sig=''
            @ hexdigest (hmac_sha3_384 (pyb ''testkey'')
                (pyb ''YWJjL3NvdXJjZS9pbWcucG5nADIwMjQwMTAxMDEwMA==''))) \<and>
   0 \<notin> set (py ''abc'') \<and> 0 \<notin> set (py ''img.png'') \<and> (0::int) \<le> timedelta_of 0 0 60 0 \<and>
   datetime_of 1000 1 1 0 0 0 \<le> datetime_of 2024 1 1 0 0 0 \<and>
   (\<exists>p sg.
      parse_url (py ''/file/download/'' @ py ''YWJjL3NvdXJjZS9pbWcucG5nADIwMjQwMTAxMDEwMA=='' @ py ''?sig=''
            @ hexdigest (hmac_sha3_384 (pyb ''testkey'')
                (pyb ''YWJjL3NvdXJjZS9pbWcucG5nADIwMjQwMTAxMDEwMA=='')))
        = Some (p, sg) \<and>
      verifyDownloadURL \<lparr>viur_file_hmacKey = Some (pyb ''testkey'')\<rparr> (datetime_of 2024 1 1 0 0 0) p sg
        = Inr (valid_result (filePath_of (py ''abc'') (py ''img.png'') False)))"
proof -
  have n: "0 \<notin> set (py ''abc'')" "0 \<notin> set (py ''img.png'')"
    by (simp_all add: py_def)
  have t: "(0::int) \<le> timedelta_of 0 0 60 0"
    by (simp add: timedelta_of_def us_per_minute_def)
  then have e: "Some (timedelta_of 0 0 60 0) = None
      \<or> (\<exists>d. Some (timedelta_of 0 0 60 0) = Some d \<and> 0 \<le> d)"
    by simp
  have c: "datetime_of 1000 1 1 0 0 0 \<le> datetime_of 2024 1 1 0 0 0"
    by (simp add: datetime_of_def calendar_defs Let_def)
  show ?thesis
    by (intro conjI downloadUrlFor_scenario n t c
        verify_after_issue [OF downloadUrlFor_scenario n e c])
qed

end
